theory Spec2Isabelle
  imports Main "HOL-Library.Monad_Syntax"
begin

section \<open>Data model\<close>

text \<open>
  The server keeps one JavaScript object per room. Seats are the elements of the room's
  \<open>players\<close> array; seat indices are integers because the code uses \<open>-1\<close> as the
  "no seat" sentinel. Arguments that arrive from a client as numbers (hand index, bid amount,
  target seat) are modelled as integers.
\<close>

type_synonym socketId = string

datatype card = Rose | Skull

datatype phase = NoPhase | Placing | Bidding | Flipping | FlipResult | Penalty | GameOver

text \<open>The text lines pushed on the room log, one constructor per template string of the source,
  carrying the values the template interpolates.\<close>

datatype logEntry =
    LogGameStarted
  | LogRound int
  | LogPlaced string
  | LogOpened string int
  | LogBid string int
  | LogPassed string
  | LogAutoPassed string
  | LogMustFlip string int
  | LogSkull string string
  | LogRose string string
  | LogWinsPoint string int
  | LogChooseDiscard string
  | LogLoses string int
  | LogEliminated string
  | LogWinsGame string
  | LogJoined string
  | LogChat string string
  | LogDoug string
  | LogReset
  | LogDisconnected string

record player =
  ident :: socketId
  name :: string
  cards :: "card list"
  hand :: "card list"
  stack :: "card list"
  wins :: int
  eliminated :: bool
  passed :: bool
  connected :: bool
  colorIndex :: int
  lastChatTime :: "int option"

record revealedCard =
  rc_playerIndex :: int
  rc_card :: card
  rc_playerName :: string

record room =
  code :: string
  players :: "player list"
  hostId :: socketId
  started :: bool
  phase :: phase
  currentPlayer :: int
  currentBid :: int
  highestBidder :: int
  flipsRemaining :: int
  totalCoastersOnTable :: int
  roundNum :: int
  firstPlacement :: bool
  nextRoundStarter :: int
  penaltyPlayer :: int
  turnDeadline :: int
  turnTimer :: "nat option"
  log :: "logEntry list"
  revealedCards :: "revealedCard list"

text \<open>The per-viewer projection built by \<open>stateForPlayer\<close>.\<close>

record playerView =
  pv_name :: string
  pv_handCount :: int
  pv_hand :: "card list option"
  pv_stackCount :: int
  pv_totalCards :: int
  pv_wins :: int
  pv_eliminated :: bool
  pv_passed :: bool
  pv_connected :: bool
  pv_isMe :: bool
  pv_colorIndex :: int

record view =
  v_code :: string
  v_started :: bool
  v_players :: "playerView list"
  v_hostId :: socketId
  v_isHost :: bool
  v_myIndex :: int
  v_phase :: phase
  v_currentPlayer :: int
  v_currentBid :: int
  v_highestBidder :: int
  v_flipsRemaining :: int
  v_totalCoastersOnTable :: int
  v_roundNum :: int
  v_firstPlacement :: bool
  v_log :: "logEntry list"
  v_revealedCards :: "revealedCard list"
  v_penaltyPlayer :: int
  v_penaltyCards :: "card list option"
  v_turnDeadline :: int

text \<open>
  What the room's closures do when a timeout fires. A deadline callback is the function handed
  to \<open>startTurnTimer\<close>; the other callbacks are the bare \<open>setTimeout\<close> calls (presentation
  pauses), whose handles the code drops, so they cannot be cancelled.
  The closures capture seat indices; the object \<open>nextPlayer\<close> captured in \<open>advancePlacing\<close>
  is the seat at index \<open>next\<close>, read again when the callback runs.
\<close>

datatype deadlineCallback =
    RoundStartExpiry int
  | PlacingExpiry int
  | BidExpiry

datatype callback =
    Deadline deadlineCallback
  | ForcedBid int
  | PenalizeCb int int
  | ChallengeSuccessCb int
  | StartRoundCb

record timer =
  handle :: nat
  due :: int
  callback :: callback

datatype emission =
    GameStateMsg socketId view
  | GameOverMsg string string int
  | DougLoseMsg string

text \<open>
  The room together with the part of the runtime it talks to: the table of this room's pending
  timeouts, the counter that names the next timeout handle, the clock read by \<open>Date.now()\<close>,
  the messages emitted while the current event is handled, and whether the room is still in
  the registry \<open>rooms\<close>.
\<close>

record world = room +
  timers :: "timer list"
  nextTimer :: nat
  now :: int
  outbox :: "emission list"
  inRegistry :: bool

section \<open>Helpers\<close>

text \<open>\<open>room.players[i]\<close>: \<open>undefined\<close> outside the array.\<close>

definition player_at :: "'a room_scheme \<Rightarrow> int \<Rightarrow> player option" where
  "player_at r i =
     (if 0 \<le> i \<and> i < int (length (players r)) then Some (players r ! nat i) else None)"

text \<open>In-place mutation of the seat object at a valid index.\<close>

definition set_player :: "'a room_scheme \<Rightarrow> int \<Rightarrow> player \<Rightarrow> 'a room_scheme" where
  "set_player r i p = r\<lparr>players := (players r)[nat i := p]\<rparr>"

fun findIndex :: "('a \<Rightarrow> bool) \<Rightarrow> 'a list \<Rightarrow> int" where
  "findIndex P [] = -1"
| "findIndex P (x # xs) =
     (if P x then 0 else (let k = findIndex P xs in if k < 0 then -1 else k + 1))"

definition playerIndex :: "'a room_scheme \<Rightarrow> socketId \<Rightarrow> int" where
  "playerIndex r socketId = findIndex (\<lambda>p. ident p = socketId) (players r)"

definition activePlayers :: "'a room_scheme \<Rightarrow> player list" where
  "activePlayers r = filter (\<lambda>p. \<not> eliminated p) (players r)"

text \<open>JavaScript's \<open>%\<close> on integers with a positive divisor: the sign follows the dividend.\<close>

definition js_rem :: "int \<Rightarrow> int \<Rightarrow> int" where
  "js_rem a n = (if a < 0 then - ((- a) mod n) else a mod n)"

text \<open>The loop of \<open>findNextActive\<close>, from counter \<open>i\<close> on. \<open>None\<close> is the TypeError of
  reading \<open>.eliminated\<close> of \<open>undefined\<close>.\<close>

function findNextActive_loop :: "'a room_scheme \<Rightarrow> int \<Rightarrow> nat \<Rightarrow> int option" where
  "findNextActive_loop r frm i =
     (if i < length (players r) then
        (let idx = js_rem (frm + int i) (int (length (players r))) in
         case player_at r idx of
           None \<Rightarrow> None
         | Some p \<Rightarrow> if \<not> eliminated p then Some idx else findNextActive_loop r frm (i + 1))
      else Some (-1))"
  by pat_completeness auto
termination
  by (relation "measure (\<lambda>(r, frm, i). length (players r) - i)") auto

definition findNextActive :: "'a room_scheme \<Rightarrow> int \<Rightarrow> int option" where
  "findNextActive r frm = findNextActive_loop r frm 0"

function nextActiveUnpassed_loop :: "'a room_scheme \<Rightarrow> int \<Rightarrow> nat \<Rightarrow> int option" where
  "nextActiveUnpassed_loop r frm i =
     (if i \<le> length (players r) then
        (let idx = js_rem (frm + int i) (int (length (players r))) in
         case player_at r idx of
           None \<Rightarrow> None
         | Some p \<Rightarrow> if \<not> eliminated p \<and> \<not> passed p then Some idx
                     else nextActiveUnpassed_loop r frm (i + 1))
      else Some (-1))"
  by pat_completeness auto
termination
  by (relation "measure (\<lambda>(r, frm, i). Suc (length (players r)) - i)") auto

definition nextActiveUnpassed :: "'a room_scheme \<Rightarrow> int \<Rightarrow> int option" where
  "nextActiveUnpassed r frm = nextActiveUnpassed_loop r frm 1"

definition countOnTable :: "'a room_scheme \<Rightarrow> int" where
  "countOnTable r = sum_list (map (\<lambda>p. int (length (stack p))) (players r))"

definition addLog :: "'a room_scheme \<Rightarrow> logEntry \<Rightarrow> 'a room_scheme" where
  "addLog r msg =
     (let l = log r @ [msg] in r\<lparr>log := (if length l > 100 then tl l else l)\<rparr>)"


section \<open>Turn scheduler\<close>

text \<open>\<open>setTimeout(cb, ms)\<close> enters a new timeout in the table under a fresh handle;
  \<open>clearTimeout(h)\<close> removes it.\<close>

definition setTimeout :: "world \<Rightarrow> callback \<Rightarrow> int \<Rightarrow> world" where
  "setTimeout w cb ms =
     w\<lparr>timers := timers w @ [\<lparr>handle = nextTimer w, due = now w + ms, callback = cb\<rparr>],
       nextTimer := nextTimer w + 1\<rparr>"

definition clearTimeout :: "world \<Rightarrow> nat \<Rightarrow> world" where
  "clearTimeout w h = w\<lparr>timers := filter (\<lambda>t. handle t \<noteq> h) (timers w)\<rparr>"

definition clearTurnTimer :: "world \<Rightarrow> world" where
  "clearTurnTimer w =
     (case turnTimer w of
        Some h \<Rightarrow> (clearTimeout w h)\<lparr>turnTimer := None, turnDeadline := 0\<rparr>
      | None \<Rightarrow> w\<lparr>turnDeadline := 0\<rparr>)"

definition startTurnTimer :: "world \<Rightarrow> int \<Rightarrow> deadlineCallback \<Rightarrow> world" where
  "startTurnTimer w seconds cb =
     (let w1 = clearTurnTimer w;
          w2 = w1\<lparr>turnDeadline := now w1 + seconds * 1000\<rparr>;
          h = nextTimer w2
      in (setTimeout w2 (Deadline cb) (seconds * 1000))\<lparr>turnTimer := Some h\<rparr>)"

section \<open>State projector\<close>

text \<open>\<open>None\<close> is the TypeError of \<open>room.players[myIdx].cards\<close> when \<open>myIdx\<close> is \<open>-1\<close>
  (a viewer that holds no seat) while the room is in phase \<open>penalty\<close> with no penalty player.\<close>

definition stateForPlayer :: "'a room_scheme \<Rightarrow> socketId \<Rightarrow> view option" where
  "stateForPlayer r socketId =
     (let myIdx = playerIndex r socketId in
      do {
        penaltyCards \<leftarrow>
          (if phase r = Penalty \<and> penaltyPlayer r = myIdx
           then (case player_at r myIdx of None \<Rightarrow> None | Some p \<Rightarrow> Some (Some (cards p)))
           else Some None);
        Some \<lparr>
          v_code = code r,
          v_started = started r,
          v_players = map (\<lambda>(i, p). \<lparr>
              pv_name = name p,
              pv_handCount = int (length (hand p)),
              pv_hand = (if int i = myIdx then Some (hand p) else None),
              pv_stackCount = int (length (stack p)),
              pv_totalCards = int (length (cards p)),
              pv_wins = wins p,
              pv_eliminated = eliminated p,
              pv_passed = passed p,
              pv_connected = connected p,
              pv_isMe = (int i = myIdx),
              pv_colorIndex = colorIndex p\<rparr>) (enumerate 0 (players r)),
          v_hostId = hostId r,
          v_isHost = (socketId = hostId r),
          v_myIndex = myIdx,
          v_phase = phase r,
          v_currentPlayer = currentPlayer r,
          v_currentBid = currentBid r,
          v_highestBidder = highestBidder r,
          v_flipsRemaining = flipsRemaining r,
          v_totalCoastersOnTable = totalCoastersOnTable r,
          v_roundNum = roundNum r,
          v_firstPlacement = firstPlacement r,
          v_log = drop (length (log r) - 40) (log r),
          v_revealedCards = revealedCards r,
          v_penaltyPlayer = penaltyPlayer r,
          v_penaltyCards = penaltyCards,
          v_turnDeadline = turnDeadline r\<rparr>
      })"

definition broadcastState :: "world \<Rightarrow> world option" where
  "broadcastState w =
     do {
       msgs \<leftarrow> those (map (\<lambda>p. map_option (GameStateMsg (ident p)) (stateForPlayer w (ident p)))
                          (players w));
       Some (w\<lparr>outbox := outbox w @ msgs\<rparr>)
     }"

section \<open>Round engine\<close>

text \<open>Every handler returns the world it leaves behind; \<open>None\<close> is an uncaught TypeError
  (a field read on \<open>undefined\<close>).\<close>

definition gameOver :: "world \<Rightarrow> int \<Rightarrow> world option" where
  "gameOver w winnerIdx =
     (let w1 = clearTurnTimer w;
          w2 = w1\<lparr>phase := GameOver\<rparr>
      in case player_at w2 winnerIdx of
           None \<Rightarrow> None
         | Some winner \<Rightarrow>
             (let w3 = addLog w2 (LogWinsGame (name winner));
                  w4 = w3\<lparr>outbox := outbox w3 @ [GameOverMsg (code w3) (name winner) winnerIdx]\<rparr>
              in broadcastState w4))"

definition startRound :: "world \<Rightarrow> world option" where
  "startRound w =
     (let w1 = clearTurnTimer w;
          w2 = w1\<lparr>roundNum := roundNum w1 + 1, phase := Placing, currentBid := 0,
                  highestBidder := -1, flipsRemaining := 0, totalCoastersOnTable := 0,
                  firstPlacement := True, revealedCards := []\<rparr>;
          w3 = w2\<lparr>players :=
                  map (\<lambda>p. if \<not> eliminated p
                            then p\<lparr>hand := cards p, stack := [], passed := False\<rparr> else p)
                      (players w2)\<rparr>;
          rotate = findNextActive w3 (js_rem (roundNum w3 - 1) (int (length (players w3))))
      in do {
        first \<leftarrow>
          (if nextRoundStarter w3 \<ge> 0
           then (case player_at w3 (nextRoundStarter w3) of
                   None \<Rightarrow> None
                 | Some p \<Rightarrow> if \<not> eliminated p then Some (nextRoundStarter w3) else rotate)
           else rotate);
        let w4 = w3\<lparr>currentPlayer := first, nextRoundStarter := -1\<rparr>;
        let w5 = addLog w4 (LogRound (roundNum w4));
        let w6 = startTurnTimer w5 20 (RoundStartExpiry first);
        broadcastState w6
      })"

definition startGame :: "world \<Rightarrow> world option" where
  "startGame w =
     (let w1 = w\<lparr>started := True, roundNum := 0\<rparr>;
          w2 = w1\<lparr>players :=
                  map (\<lambda>p. p\<lparr>cards := [Rose, Rose, Rose, Skull], wins := 0, eliminated := False\<rparr>)
                      (players w1)\<rparr>;
          w3 = addLog w2 LogGameStarted
      in startRound w3)"

definition startFlipping :: "world \<Rightarrow> world option" where
  "startFlipping w =
     (let w1 = clearTurnTimer w;
          w2 = w1\<lparr>phase := Flipping, flipsRemaining := currentBid w1,
                  currentPlayer := highestBidder w1, revealedCards := []\<rparr>
      in case player_at w2 (highestBidder w2) of
           None \<Rightarrow> None
         | Some bidder \<Rightarrow>
             broadcastState (addLog w2 (LogMustFlip (name bidder) (currentBid w2))))"

definition checkBiddingEnd :: "world \<Rightarrow> world option" where
  "checkBiddingEnd w =
     (let w1 = w\<lparr>totalCoastersOnTable := countOnTable w\<rparr>;
          active = filter (\<lambda>(i, p). \<not> eliminated p \<and> \<not> passed p \<and> int i \<noteq> highestBidder w1)
                          (enumerate 0 (players w1))
      in if length active = 0 \<or> currentBid w1 \<ge> totalCoastersOnTable w1
         then startFlipping w1
         else broadcastState w1)"

definition startBidTimer :: "world \<Rightarrow> world" where
  "startBidTimer w = startTurnTimer w 20 BidExpiry"

definition players_passed_set_bidder :: "world \<Rightarrow> int \<Rightarrow> world" where
  "players_passed_set_bidder w bidderIdx =
     w\<lparr>players := map (\<lambda>(i, p). if int i = bidderIdx then p\<lparr>passed := False\<rparr> else p)
                        (enumerate 0 (players w))\<rparr>"

text \<open>\<open>amount || 1\<close> replaces a falsy amount, which for an integer is 0.\<close>

definition handleStartBid :: "world \<Rightarrow> int \<Rightarrow> int \<Rightarrow> world option" where
  "handleStartBid w pIdx amount =
     (if phase w \<noteq> Placing then Some w
      else if currentPlayer w \<noteq> pIdx then Some w
      else if firstPlacement w then Some w
      else case player_at w pIdx of
        None \<Rightarrow> None
      | Some p \<Rightarrow>
          (let w1 = w\<lparr>totalCoastersOnTable := countOnTable w\<rparr>;
               maxBid = totalCoastersOnTable w1;
               bidAmount = max 1 (min (if amount = 0 then 1 else amount) maxBid);
               w2 = w1\<lparr>phase := Bidding, currentBid := bidAmount, highestBidder := pIdx\<rparr>;
               w3 = w2\<lparr>players := map (\<lambda>pl. pl\<lparr>passed := False\<rparr>) (players w2)\<rparr>;
               w4 = players_passed_set_bidder w3 pIdx;
               w5 = addLog w4 (LogOpened (name p) bidAmount);
               w6 = w5\<lparr>currentPlayer := -1\<rparr>;
               w7 = startBidTimer w6
           in checkBiddingEnd w7))"

definition advancePlacing :: "world \<Rightarrow> world option" where
  "advancePlacing w =
     do {
       unpassed \<leftarrow> nextActiveUnpassed w (currentPlayer w);
       next \<leftarrow> (if unpassed = -1 then findNextActive w 0 else Some unpassed);
       let w1 = w\<lparr>currentPlayer := next\<rparr>;
       (case player_at w1 next of
          Some nextPlayer \<Rightarrow>
            if \<not> eliminated nextPlayer \<and> length (hand nextPlayer) = 0
               \<and> phase w1 = Placing \<and> \<not> firstPlacement w1
            then do {
              w2 \<leftarrow> broadcastState (clearTurnTimer w1);
              Some (setTimeout w2 (ForcedBid next) 800)
            }
            else broadcastState (startTurnTimer w1 20 (PlacingExpiry next))
        | None \<Rightarrow> broadcastState (startTurnTimer w1 20 (PlacingExpiry next)))
     }"

definition handlePlace :: "world \<Rightarrow> int \<Rightarrow> int \<Rightarrow> world option" where
  "handlePlace w pIdx cardIndex =
     (if phase w \<noteq> Placing then Some w
      else if currentPlayer w \<noteq> pIdx then Some w
      else case player_at w pIdx of
        None \<Rightarrow> None
      | Some p \<Rightarrow>
          if cardIndex < 0 \<or> cardIndex \<ge> int (length (hand p)) then Some w
          else
            (let card = hand p ! nat cardIndex;
                 p1 = p\<lparr>hand := take (nat cardIndex) (hand p) @ drop (nat cardIndex + 1) (hand p),
                        stack := stack p @ [card]\<rparr>;
                 w1 = set_player w pIdx p1;
                 w2 = w1\<lparr>totalCoastersOnTable := countOnTable w1\<rparr>;
                 w3 = addLog w2 (LogPlaced (name p));
                 allPlaced = list_all (\<lambda>pl. eliminated pl \<or> length (stack pl) > 0) (players w3);
                 w4 = (if allPlaced then w3\<lparr>firstPlacement := False\<rparr> else w3)
             in advancePlacing w4))"

definition handleRaiseBid :: "world \<Rightarrow> int \<Rightarrow> int \<Rightarrow> world option" where
  "handleRaiseBid w pIdx amount =
     (if phase w \<noteq> Bidding then Some w
      else case player_at w pIdx of
        None \<Rightarrow> None
      | Some p \<Rightarrow>
          if passed p \<or> eliminated p then Some w
          else if pIdx = highestBidder w then Some w
          else
            (let w1 = w\<lparr>totalCoastersOnTable := countOnTable w\<rparr>
             in if amount \<le> currentBid w1 \<or> amount > totalCoastersOnTable w1 then Some w1
                else
                  (let w2 = w1\<lparr>currentBid := amount, highestBidder := pIdx\<rparr>;
                       w3 = addLog w2 (LogBid (name p) amount);
                       w4 = startBidTimer w3
                   in checkBiddingEnd w4)))"

definition handlePass :: "world \<Rightarrow> int \<Rightarrow> world option" where
  "handlePass w pIdx =
     (if phase w \<noteq> Bidding then Some w
      else case player_at w pIdx of
        None \<Rightarrow> None
      | Some p \<Rightarrow>
          if passed p \<or> eliminated p then Some w
          else if pIdx = highestBidder w then Some w
          else
            (let w1 = set_player w pIdx (p\<lparr>passed := True\<rparr>);
                 w2 = addLog w1 (LogPassed (name p))
             in checkBiddingEnd w2))"

definition handleFlip :: "world \<Rightarrow> int \<Rightarrow> int \<Rightarrow> world option" where
  "handleFlip w flipperIdx targetPlayerIdx =
     (if phase w \<noteq> Flipping then Some w
      else if flipsRemaining w \<le> 0 then Some w
      else if flipperIdx \<noteq> highestBidder w then Some w
      else if currentPlayer w \<noteq> flipperIdx then Some w
      else case player_at w targetPlayerIdx of
        None \<Rightarrow> Some w
      | Some target \<Rightarrow>
          if eliminated target \<or> length (stack target) = 0 then Some w
          else case player_at w flipperIdx of
            None \<Rightarrow> None
          | Some flipper \<Rightarrow>
              if targetPlayerIdx \<noteq> flipperIdx \<and> length (stack flipper) > 0 then Some w
              else
                (let card = last (stack target);
                     w1 = set_player w targetPlayerIdx (target\<lparr>stack := butlast (stack target)\<rparr>);
                     w2 = w1\<lparr>totalCoastersOnTable := countOnTable w1\<rparr>;
                     w3 = w2\<lparr>flipsRemaining := flipsRemaining w2 - 1\<rparr>;
                     w4 = w3\<lparr>revealedCards := revealedCards w3 @
                            [\<lparr>rc_playerIndex = targetPlayerIdx, rc_card = card,
                              rc_playerName = name target\<rparr>]\<rparr>
                 in if card = Skull then
                      do {
                        w5 \<leftarrow> broadcastState
                                (addLog (w4\<lparr>phase := FlipResult\<rparr>)
                                        (LogSkull (name flipper) (name target)));
                        Some (setTimeout w5 (PenalizeCb flipperIdx targetPlayerIdx) 1500)
                      }
                    else
                      (let w5 = addLog w4 (LogRose (name flipper) (name target))
                       in if flipsRemaining w5 \<le> 0 then
                            do {
                              w6 \<leftarrow> broadcastState (w5\<lparr>phase := FlipResult\<rparr>);
                              Some (setTimeout w6 (ChallengeSuccessCb flipperIdx) 1200)
                            }
                          else broadcastState w5)))"

definition challengeSuccess :: "world \<Rightarrow> int \<Rightarrow> world option" where
  "challengeSuccess w pIdx =
     (case player_at w pIdx of
        None \<Rightarrow> None
      | Some p \<Rightarrow>
          (let p1 = p\<lparr>wins := wins p + 1\<rparr>;
               w1 = set_player w pIdx p1;
               w2 = w1\<lparr>nextRoundStarter := pIdx\<rparr>;
               w3 = addLog w2 (LogWinsPoint (name p1) (wins p1))
           in if wins p1 \<ge> 2 then gameOver w3 pIdx
              else do {
                w4 \<leftarrow> broadcastState w3;
                Some (setTimeout w4 StartRoundCb 2000)
              }))"

text \<open>\<open>rnd\<close> stands for the draw \<open>Math.floor(Math.random() * p.cards.length)\<close>, which ranges
  over the indices of \<open>cards\<close>; the model takes a natural number and reduces it into that range.\<close>

definition doCardRemoval :: "world \<Rightarrow> nat \<Rightarrow> int \<Rightarrow> int \<Rightarrow> world option" where
  "doCardRemoval w rnd loserIdx chosenIdx =
     (case player_at w loserIdx of
        None \<Rightarrow> None
      | Some p \<Rightarrow>
          (let removeIdx = (if chosenIdx \<ge> 0 \<and> chosenIdx < int (length (cards p))
                            then nat chosenIdx else rnd mod length (cards p));
               p1 = (if length (cards p) > 0
                     then p\<lparr>cards := take removeIdx (cards p) @ drop (removeIdx + 1) (cards p)\<rparr>
                     else p);
               w1 = (if length (cards p) > 0
                     then addLog (set_player w loserIdx p1)
                                 (LogLoses (name p1) (int (length (cards p1))))
                     else w);
               w2 = (if length (cards p1) = 0
                     then addLog (set_player w1 loserIdx
                                    (p1\<lparr>eliminated := True, hand := [], stack := []\<rparr>))
                                 (LogEliminated (name p1))
                     else w1);
               w3 = w2\<lparr>penaltyPlayer := -1\<rparr>;
               alive = filter (\<lambda>pl. \<not> eliminated pl) (players w3)
           in if length alive \<le> 1
              then gameOver w3 (findIndex (\<lambda>pl. \<not> eliminated pl) (players w3))
              else do {
                w4 \<leftarrow> broadcastState w3;
                Some (setTimeout w4 StartRoundCb 2000)
              }))"

definition penalize :: "world \<Rightarrow> nat \<Rightarrow> int \<Rightarrow> int \<Rightarrow> world option" where
  "penalize w rnd loserIdx skullerIdx =
     (let w1 = w\<lparr>nextRoundStarter := (if loserIdx = skullerIdx then loserIdx else skullerIdx)\<rparr>
      in if loserIdx = skullerIdx then
           (case player_at w1 loserIdx of
              None \<Rightarrow> None
            | Some p \<Rightarrow>
                if length (cards p) > 1 then
                  broadcastState
                    (addLog (w1\<lparr>phase := Penalty, penaltyPlayer := loserIdx\<rparr>)
                            (LogChooseDiscard (name p)))
                else doCardRemoval w1 rnd loserIdx (-1))
         else doCardRemoval w1 rnd loserIdx (-1))"

definition handlePenaltyDiscard :: "world \<Rightarrow> int \<Rightarrow> int \<Rightarrow> world option" where
  "handlePenaltyDiscard w pIdx cardIndex =
     (if phase w \<noteq> Penalty then Some w
      else if penaltyPlayer w \<noteq> pIdx then Some w
      else case player_at w pIdx of
        None \<Rightarrow> None
      | Some p \<Rightarrow>
          if cardIndex < 0 \<or> cardIndex \<ge> int (length (cards p)) then Some w
          else doCardRemoval w 0 pIdx cardIndex)"


section \<open>Timeout callbacks\<close>

text \<open>The auto-pass loop of the bidding deadline: every seat that is neither eliminated, nor
  passed, nor the highest bidder passes, and one log line is pushed per such seat, in seat order.\<close>

definition autoPass :: "world \<Rightarrow> world" where
  "autoPass w =
     (let due_seats = filter (\<lambda>(i, p). \<not> eliminated p \<and> \<not> passed p \<and> int i \<noteq> highestBidder w)
                             (enumerate 0 (players w));
          w1 = w\<lparr>players :=
                  map (\<lambda>(i, p). if \<not> eliminated p \<and> \<not> passed p \<and> int i \<noteq> highestBidder w
                                 then p\<lparr>passed := True\<rparr> else p)
                      (enumerate 0 (players w))\<rparr>
      in foldl addLog w1 (map (\<lambda>(i, p). LogAutoPassed (name p)) due_seats))"

fun runDeadlineCallback :: "world \<Rightarrow> deadlineCallback \<Rightarrow> world option" where
  "runDeadlineCallback w (RoundStartExpiry firstPlayer) =
     (if phase w \<noteq> Placing \<or> currentPlayer w \<noteq> firstPlayer then Some w
      else case player_at w firstPlayer of
        None \<Rightarrow> None
      | Some p \<Rightarrow> if length (hand p) > 0 then handlePlace w firstPlayer 0 else Some w)"
| "runDeadlineCallback w (PlacingExpiry next) =
     (if phase w \<noteq> Placing \<or> currentPlayer w \<noteq> next then Some w
      else case player_at w next of
        None \<Rightarrow> None
      | Some nextPlayer \<Rightarrow>
          if \<not> firstPlacement w \<and> length (stack nextPlayer) > 0 then handleStartBid w next 1
          else if length (hand nextPlayer) > 0 then handlePlace w next 0
          else Some w)"
| "runDeadlineCallback w BidExpiry =
     (if phase w \<noteq> Bidding then Some w else checkBiddingEnd (autoPass w))"

text \<open>The function \<open>startTurnTimer\<close> wraps around a deadline callback clears the handle and the
  deadline before calling it.\<close>

fun runCallback :: "world \<Rightarrow> nat \<Rightarrow> callback \<Rightarrow> world option" where
  "runCallback w rnd (Deadline cb) = runDeadlineCallback (w\<lparr>turnTimer := None, turnDeadline := 0\<rparr>) cb"
| "runCallback w rnd (ForcedBid next) =
     (if phase w = Placing \<and> currentPlayer w = next then handleStartBid w next 1 else Some w)"
| "runCallback w rnd (PenalizeCb flipperIdx targetPlayerIdx) = penalize w rnd flipperIdx targetPlayerIdx"
| "runCallback w rnd (ChallengeSuccessCb flipperIdx) = challengeSuccess w flipperIdx"
| "runCallback w rnd StartRoundCb = startRound w"

text \<open>The runtime fires a pending timeout once it is due: the entry leaves the table and its
  callback runs. A handle that is not pending, or not yet due, does nothing.\<close>

definition fire :: "world \<Rightarrow> nat \<Rightarrow> nat \<Rightarrow> world option" where
  "fire w h rnd =
     (case find (\<lambda>t. handle t = h) (timers w) of
        None \<Rightarrow> Some w
      | Some t \<Rightarrow>
          if now w < due t then Some w
          else runCallback (w\<lparr>timers := filter (\<lambda>t. handle t \<noteq> h) (timers w)\<rparr>) rnd (callback t))"

section \<open>Socket handlers\<close>

text \<open>String helpers of the runtime: \<open>trim\<close>, \<open>toUpperCase\<close>, \<open>toLowerCase\<close>, and the
  three replacements of \<open>sanitizeHtml\<close>. A string of the model is a list of 8-bit characters
  and stands for the JavaScript string with the same code units; the helpers below are the
  JavaScript functions on strings of ASCII characters (\<open>isAscii\<close>) only: outside that range
  JavaScript's \<open>trim\<close> also strips the Unicode white space (U+00A0 among others) and its case
  mappings follow Unicode. What is proved about a handler that normalises a string sent by a
  client is therefore stated for ASCII input.\<close>

definition isAscii :: "string \<Rightarrow> bool" where
  "isAscii s = list_all (\<lambda>c. (of_char c :: nat) < 128) s"

definition isSpace :: "char \<Rightarrow> bool" where
  "isSpace c = (c \<in> set [CHR 0x09, CHR 0x0A, CHR 0x0B, CHR 0x0C, CHR 0x0D, CHR 0x20])"

definition trim :: "string \<Rightarrow> string" where
  "trim s = rev (dropWhile isSpace (rev (dropWhile isSpace s)))"

definition toUpperChar :: "char \<Rightarrow> char" where
  "toUpperChar c =
     (let k = (of_char c :: nat) in if 97 \<le> k \<and> k \<le> 122 then char_of (k - 32) else c)"

definition toLowerChar :: "char \<Rightarrow> char" where
  "toLowerChar c =
     (let k = (of_char c :: nat) in if 65 \<le> k \<and> k \<le> 90 then char_of (k + 32) else c)"

definition toUpperCase :: "string \<Rightarrow> string" where
  "toUpperCase s = map toUpperChar s"

definition toLowerCase :: "string \<Rightarrow> string" where
  "toLowerCase s = map toLowerChar s"

definition sanitizeHtml :: "string \<Rightarrow> string" where
  "sanitizeHtml str =
     concat (map (\<lambda>c. if c = CHR ''&'' then ''&amp;''
                       else if c = CHR ''<'' then ''&lt;''
                       else if c = CHR ''>'' then ''&gt;'' else [c]) str)"

definition newPlayer :: "socketId \<Rightarrow> string \<Rightarrow> int \<Rightarrow> player" where
  "newPlayer sid nm ci =
     \<lparr>ident = sid, name = nm, cards = [], hand = [], stack = [], wins = 0, eliminated = False,
      passed = False, connected = True, colorIndex = ci, lastChatTime = None\<rparr>"

definition newRoom :: "string \<Rightarrow> socketId \<Rightarrow> string \<Rightarrow> room" where
  "newRoom c hostId' hostName =
     \<lparr>code = c, players = [newPlayer hostId' hostName 0], hostId = hostId', started = False,
      phase = NoPhase, currentPlayer = 0, currentBid = 0, highestBidder = -1,
      flipsRemaining = 0, totalCoastersOnTable = 0, roundNum = 0, firstPlacement = True,
      nextRoundStarter = -1, penaltyPlayer = -1, turnDeadline = 0, turnTimer = None,
      log = [], revealedCards = []\<rparr>"

text \<open>A room just put in the registry, with no timeout pending, at clock reading \<open>t\<close>.\<close>

definition registered :: "room \<Rightarrow> int \<Rightarrow> world" where
  "registered r t =
     room.extend r \<lparr>timers = [], nextTimer = 0, now = t, outbox = [], inRegistry = True\<rparr>"

definition on_createRoom :: "string \<Rightarrow> socketId \<Rightarrow> string \<Rightarrow> int \<Rightarrow> world option" where
  "on_createRoom c sid nm t =
     (let hostName = (let n = take 16 (trim nm) in if n = [] then ''Host'' else n)
      in broadcastState (registered (newRoom c sid hostName) t))"

datatype joinError = RoomNotFound | GameInProgress | RoomFull | NameTaken

datatype joinReply = JoinSuccess string | JoinFailure joinError

text \<open>The part of the \<open>joinRoom\<close> handler that follows the registry lookup: \<open>w\<close> is the room
  found under the key \<open>c\<close>, \<open>nm\<close> the display name after trimming, capping and defaulting.\<close>

definition joinFound ::
  "world \<Rightarrow> string \<Rightarrow> socketId \<Rightarrow> string \<Rightarrow> (joinReply \<times> world) option" where
  "joinFound w c sid nm =
     (if started w then
        (let k = findIndex (\<lambda>p. name p = nm \<and> \<not> connected p) (players w)
         in case player_at w k of
              Some existing \<Rightarrow>
                map_option (Pair (JoinSuccess c))
                  (broadcastState (set_player w k (existing\<lparr>ident := sid, connected := True\<rparr>)))
            | None \<Rightarrow> Some (JoinFailure GameInProgress, w))
      else if length (players w) \<ge> 6 then Some (JoinFailure RoomFull, w)
      else if findIndex (\<lambda>p. name p = nm) (players w) \<ge> 0 then Some (JoinFailure NameTaken, w)
      else
        (let w1 = w\<lparr>players := players w @ [newPlayer sid nm (int (length (players w)))]\<rparr>;
             w2 = addLog w1 (LogJoined nm)
         in map_option (Pair (JoinSuccess c)) (broadcastState w2)))"

text \<open>The display name a join asks for: trimmed, capped at 16 characters, \<open>Player\<close> if empty.\<close>

definition joinName :: "string \<Rightarrow> string" where
  "joinName dname = (let n = take 16 (trim dname) in if n = [] then ''Player'' else n)"

definition on_joinRoom ::
  "(string \<rightharpoonup> world) \<Rightarrow> socketId \<Rightarrow> string \<Rightarrow> string \<Rightarrow> (joinReply \<times> (string \<rightharpoonup> world)) option"
where
  "on_joinRoom rooms sid dcode dname =
     (let c = trim (toUpperCase dcode);
          nm = joinName dname
      in case rooms c of
           None \<Rightarrow> Some (JoinFailure RoomNotFound, rooms)
         | Some w \<Rightarrow> map_option (\<lambda>(reply, w'). (reply, rooms(c \<mapsto> w'))) (joinFound w c sid nm))"

definition on_startGame :: "world \<Rightarrow> socketId \<Rightarrow> world option" where
  "on_startGame w sid =
     (if \<not> inRegistry w \<or> started w then Some w
      else if sid \<noteq> hostId w then Some w
      else if length (players w) < 2 then Some w
      else startGame w)"

definition on_placeCard :: "world \<Rightarrow> socketId \<Rightarrow> int \<Rightarrow> world option" where
  "on_placeCard w sid cardIndex =
     (if \<not> inRegistry w \<or> \<not> started w then Some w
      else let pIdx = playerIndex w sid in
        if pIdx = -1 then Some w else handlePlace w pIdx cardIndex)"

definition on_startBid :: "world \<Rightarrow> socketId \<Rightarrow> int \<Rightarrow> world option" where
  "on_startBid w sid amount =
     (if \<not> inRegistry w \<or> \<not> started w then Some w
      else let pIdx = playerIndex w sid in
        if pIdx = -1 then Some w else handleStartBid w pIdx amount)"

definition on_raiseBid :: "world \<Rightarrow> socketId \<Rightarrow> int \<Rightarrow> world option" where
  "on_raiseBid w sid amount =
     (if \<not> inRegistry w \<or> \<not> started w then Some w
      else let pIdx = playerIndex w sid in
        if pIdx = -1 then Some w else handleRaiseBid w pIdx amount)"

definition on_pass :: "world \<Rightarrow> socketId \<Rightarrow> world option" where
  "on_pass w sid =
     (if \<not> inRegistry w \<or> \<not> started w then Some w
      else let pIdx = playerIndex w sid in
        if pIdx = -1 then Some w else handlePass w pIdx)"

definition on_flipCoaster :: "world \<Rightarrow> socketId \<Rightarrow> int \<Rightarrow> world option" where
  "on_flipCoaster w sid targetIdx =
     (if \<not> inRegistry w \<or> \<not> started w then Some w
      else let pIdx = playerIndex w sid in
        if pIdx = -1 then Some w else handleFlip w pIdx targetIdx)"

definition on_penaltyDiscard :: "world \<Rightarrow> socketId \<Rightarrow> int \<Rightarrow> world option" where
  "on_penaltyDiscard w sid cardIndex =
     (if \<not> inRegistry w \<or> \<not> started w then Some w
      else let pIdx = playerIndex w sid in
        if pIdx = -1 then Some w else handlePenaltyDiscard w pIdx cardIndex)"

definition on_chatMessage :: "world \<Rightarrow> socketId \<Rightarrow> string \<Rightarrow> world option" where
  "on_chatMessage w sid msg =
     (if \<not> inRegistry w then Some w
      else let pIdx = playerIndex w sid in
        case player_at w pIdx of
          None \<Rightarrow> Some w
        | Some p \<Rightarrow>
            (let text = sanitizeHtml (take 200 (trim msg)) in
             if text = [] then Some w
             else if (case lastChatTime p of
                        None \<Rightarrow> False
                      | Some t \<Rightarrow> t \<noteq> 0 \<and> now w - t < 1000) then Some w
             else
               (let w1 = set_player w pIdx (p\<lparr>lastChatTime := Some (now w)\<rparr>);
                    w2 = addLog w1 (LogChat (name p) text)
                in broadcastState w2)))"

definition on_dougLose :: "world \<Rightarrow> socketId \<Rightarrow> world option" where
  "on_dougLose w sid =
     (if \<not> inRegistry w then Some w
      else let pIdx = playerIndex w sid in
        case player_at w pIdx of
          None \<Rightarrow> Some w
        | Some p \<Rightarrow>
            if toLowerCase (name p) \<noteq> ''pat-wins'' then Some w
            else
              (let w1 = addLog w (LogDoug (name p));
                   w2 = w1\<lparr>outbox := outbox w1 @ [DougLoseMsg (code w1)]\<rparr>
               in broadcastState w2))"

definition on_playAgain :: "world \<Rightarrow> socketId \<Rightarrow> world option" where
  "on_playAgain w sid =
     (if \<not> inRegistry w then Some w
      else if sid \<noteq> hostId w then Some w
      else
        (let w1 = w\<lparr>started := False, phase := NoPhase, log := [], revealedCards := []\<rparr>;
             w2 = w1\<lparr>players :=
                     map (\<lambda>p. p\<lparr>cards := [], hand := [], stack := [], wins := 0,
                                eliminated := False, passed := False\<rparr>) (players w1)\<rparr>;
             w3 = addLog w2 LogReset
         in broadcastState w3))"

definition on_disconnect :: "world \<Rightarrow> socketId \<Rightarrow> world option" where
  "on_disconnect w sid =
     (if \<not> inRegistry w then Some w
      else let pIdx = playerIndex w sid in
        case player_at w pIdx of
          None \<Rightarrow> Some w
        | Some p \<Rightarrow>
            if \<not> started w then
              (let w1 = w\<lparr>players := take (nat pIdx) (players w) @ drop (nat pIdx + 1) (players w)\<rparr>
               in if length (players w1) = 0 then Some (w1\<lparr>inRegistry := False\<rparr>)
                  else broadcastState
                         (if sid = hostId w1 then w1\<lparr>hostId := ident (players w1 ! 0)\<rparr> else w1))
            else
              (let w1 = set_player w pIdx (p\<lparr>connected := False\<rparr>);
                   w2 = addLog w1 (LogDisconnected (name p))
               in broadcastState w2))"

section \<open>The room as a transition system\<close>

text \<open>
  One event is one run-to-completion handler invocation: a socket message addressed to this
  room, a timeout firing, or the clock advancing by some milliseconds. \<open>JoinRoom\<close> is a join
  whose code resolved to this room. \<open>Fire h rnd\<close> fires the timeout with handle \<open>h\<close>; \<open>rnd\<close> is the random draw its
  callback may use.
\<close>

datatype event =
    JoinRoom socketId string
  | StartGame socketId
  | PlaceCard socketId int
  | StartBid socketId int
  | RaiseBid socketId int
  | Pass socketId
  | FlipCoaster socketId int
  | PenaltyDiscard socketId int
  | ChatMessage socketId string
  | DougLose socketId
  | PlayAgain socketId
  | Disconnect socketId
  | Fire nat nat
  | Tick int

fun dispatch :: "event \<Rightarrow> world \<Rightarrow> world option" where
  "dispatch (JoinRoom sid dname) w =
     (if \<not> inRegistry w then Some w
      else map_option snd (joinFound w (code w) sid (joinName dname)))"
| "dispatch (StartGame sid) w = on_startGame w sid"
| "dispatch (PlaceCard sid cardIndex) w = on_placeCard w sid cardIndex"
| "dispatch (StartBid sid amount) w = on_startBid w sid amount"
| "dispatch (RaiseBid sid amount) w = on_raiseBid w sid amount"
| "dispatch (Pass sid) w = on_pass w sid"
| "dispatch (FlipCoaster sid targetIdx) w = on_flipCoaster w sid targetIdx"
| "dispatch (PenaltyDiscard sid cardIndex) w = on_penaltyDiscard w sid cardIndex"
| "dispatch (ChatMessage sid msg) w = on_chatMessage w sid msg"
| "dispatch (DougLose sid) w = on_dougLose w sid"
| "dispatch (PlayAgain sid) w = on_playAgain w sid"
| "dispatch (Disconnect sid) w = on_disconnect w sid"
| "dispatch (Fire h rnd) w = fire w h rnd"
| "dispatch (Tick d) w = Some (w\<lparr>now := now w + max 0 d\<rparr>)"

text \<open>The transport drains the outbox between events.\<close>

definition step :: "event \<Rightarrow> world \<Rightarrow> world option" where
  "step e w = dispatch e (w\<lparr>outbox := []\<rparr>)"

fun exec :: "event list \<Rightarrow> world \<Rightarrow> world option" where
  "exec [] w = Some w"
| "exec (e # es) w = (case step e w of None \<Rightarrow> None | Some w' \<Rightarrow> exec es w')"

text \<open>Every state a room can be in: created by \<open>createRoom\<close>, then driven by events.\<close>

inductive reachable :: "world \<Rightarrow> bool" where
  created: "on_createRoom c sid nm t = Some w \<Longrightarrow> reachable w"
| stepped: "reachable w \<Longrightarrow> step e w = Some w' \<Longrightarrow> reachable w'"

fun isPlayAgain :: "event \<Rightarrow> bool" where
  "isPlayAgain (PlayAgain sid) = True"
| "isPlayAgain e = False"

section \<open>Auxiliary definitions\<close>

text \<open>The pieces of the object literal built by \<open>stateForPlayer\<close>: the \<open>penaltyCards\<close> entry,
  one seat's entry, and the whole view once \<open>penaltyCards\<close> has been evaluated.\<close>

definition penaltyCardsFor :: "'a room_scheme \<Rightarrow> int \<Rightarrow> card list option option" where
  "penaltyCardsFor r myIdx =
          (if phase r = Penalty \<and> penaltyPlayer r = myIdx
           then (case player_at r myIdx of None \<Rightarrow> None | Some p \<Rightarrow> Some (Some (cards p)))
           else Some None)"

definition playerViewOf :: "int \<Rightarrow> nat \<times> player \<Rightarrow> playerView" where
  "playerViewOf myIdx = (\<lambda>(i, p). \<lparr>
              pv_name = name p,
              pv_handCount = int (length (hand p)),
              pv_hand = (if int i = myIdx then Some (hand p) else None),
              pv_stackCount = int (length (stack p)),
              pv_totalCards = int (length (cards p)),
              pv_wins = wins p,
              pv_eliminated = eliminated p,
              pv_passed = passed p,
              pv_connected = connected p,
              pv_isMe = (int i = myIdx),
              pv_colorIndex = colorIndex p\<rparr>)"

definition viewWith :: "'a room_scheme \<Rightarrow> socketId \<Rightarrow> card list option \<Rightarrow> view" where
  "viewWith r socketId penaltyCards = \<lparr>
          v_code = code r,
          v_started = started r,
          v_players = map (playerViewOf (playerIndex r socketId)) (enumerate 0 (players r)),
          v_hostId = hostId r,
          v_isHost = (socketId = hostId r),
          v_myIndex = playerIndex r socketId,
          v_phase = phase r,
          v_currentPlayer = currentPlayer r,
          v_currentBid = currentBid r,
          v_highestBidder = highestBidder r,
          v_flipsRemaining = flipsRemaining r,
          v_totalCoastersOnTable = totalCoastersOnTable r,
          v_roundNum = roundNum r,
          v_firstPlacement = firstPlacement r,
          v_log = drop (length (log r) - 40) (log r),
          v_revealedCards = revealedCards r,
          v_penaltyPlayer = penaltyPlayer r,
          v_penaltyCards = penaltyCards,
          v_turnDeadline = turnDeadline r\<rparr>"


text \<open>A room in phase \<open>penalty\<close> with two seats, used to instantiate the projection.\<close>

definition exampleRoom :: room where
  "exampleRoom =
     (newRoom ''ABCD'' ''s1'' ''Ann'')\<lparr>
        players := [(newPlayer ''s1'' ''Ann'' 0)\<lparr>cards := [Rose, Skull], hand := [Rose],
                                                 stack := []\<rparr>,
                    (newPlayer ''s2'' ''Bob'' 1)\<lparr>cards := [Rose, Rose, Skull], hand := [Rose, Skull],
                                                 stack := [Rose]\<rparr>],
        started := True, phase := Penalty, penaltyPlayer := 0\<rparr>"

text \<open>What \<open>broadcastState\<close> sends: the view of a viewer that holds a seat, and the list of
  messages, one per seat.\<close>

definition memberView :: "'a room_scheme \<Rightarrow> socketId \<Rightarrow> view" where
  "memberView r sid =
     viewWith r sid
       (if phase r = Penalty \<and> penaltyPlayer r = playerIndex r sid
        then Some (cards (players r ! nat (playerIndex r sid))) else None)"

definition stateMsgs :: "'a room_scheme \<Rightarrow> emission list" where
  "stateMsgs r = map (\<lambda>p. GameStateMsg (ident p) (memberView r (ident p))) (players r)"


text \<open>The conditions under which a flip request is applied, in the words of the specification.\<close>

definition flipAllowed :: "world \<Rightarrow> int \<Rightarrow> int \<Rightarrow> bool" where
  "flipAllowed w flipperIdx targetIdx \<longleftrightarrow>
     phase w = Flipping \<and> flipperIdx = highestBidder w \<and> currentPlayer w = flipperIdx \<and>
     0 < flipsRemaining w \<and>
     (case player_at w targetIdx of
        None \<Rightarrow> False
      | Some target \<Rightarrow>
          \<not> eliminated target \<and> stack target \<noteq> [] \<and>
          (targetIdx = flipperIdx \<or>
           (case player_at w flipperIdx of None \<Rightarrow> False | Some flipper \<Rightarrow> stack flipper = [])))"

text \<open>A sample run: Ann creates a room, Bob joins, the game starts, each places one token
  (Ann a rose, Bob his skull), and Ann opens the bidding at 2, which equals the tokens on the
  table, so the room is in phase \<open>flipping\<close> with two flips to make.\<close>

definition demoLobby :: world where
  "demoLobby = the (on_createRoom ''ABCD'' ''s1'' ''Ann'' 0)"

definition demoTrace :: "event list" where
  "demoTrace = [JoinRoom ''s2'' ''Bob'', StartGame ''s1'', PlaceCard ''s1'' 0, PlaceCard ''s2'' 3,
                StartBid ''s1'' 2]"

definition demoFlipping :: world where
  "demoFlipping = the (exec demoTrace demoLobby)"

text \<open>A registry of three rooms: the sample game after Bob's connection ended, a lobby with its
  host only, and a lobby with six seats.\<close>

definition demoDisconnected :: world where
  "demoDisconnected = the (exec [Disconnect ''s2''] demoFlipping)"

definition demoFullLobby :: world where
  "demoFullLobby = the (exec [JoinRoom ''s2'' ''Bob'', JoinRoom ''s3'' ''Cy'', JoinRoom ''s4'' ''Di'',
                             JoinRoom ''s5'' ''Ed'', JoinRoom ''s6'' ''Flo''] demoLobby)"

definition demoRooms :: "string \<rightharpoonup> world" where
  "demoRooms = [''ABCD'' \<mapsto> demoDisconnected, ''EFGH'' \<mapsto> demoLobby, ''JKLM'' \<mapsto> demoFullLobby]"

text \<open>The timeout table. A deadline is an entry made by \<open>startTurnTimer\<close>; the table is in
  order when its handles are distinct and below the next handle to be handed out, and an entry
  is a deadline exactly when \<open>turnTimer\<close> holds its handle.\<close>

fun isDeadline :: "callback \<Rightarrow> bool" where
  "isDeadline (Deadline cb) = True"
| "isDeadline cb = False"

definition schedOk :: "timer list \<Rightarrow> nat \<Rightarrow> nat option \<Rightarrow> bool" where
  "schedOk ts n tt \<longleftrightarrow>
     distinct (map handle ts) \<and> (\<forall>t \<in> set ts. handle t < n) \<and>
     (\<forall>t \<in> set ts. isDeadline (callback t) \<longleftrightarrow> tt = Some (handle t)) \<and>
     (\<forall>h. tt = Some h \<longrightarrow> h < n)"

definition timersOk :: "world \<Rightarrow> bool" where
  "timersOk w \<longleftrightarrow> schedOk (timers w) (nextTimer w) (turnTimer w)"

text \<open>\<open>doCardRemoval\<close> in two steps: the seat after the removal of one token (eliminated,
  with hand and stack cleared, when no token is left), and the world just before the handler
  decides between the end of the game and the next round.\<close>

definition penalised :: "player \<Rightarrow> nat \<Rightarrow> int \<Rightarrow> player" where
  "penalised p rnd chosenIdx =
     (let removeIdx = (if chosenIdx \<ge> 0 \<and> chosenIdx < int (length (cards p))
                       then nat chosenIdx else rnd mod length (cards p));
          p1 = (if length (cards p) > 0
                then p\<lparr>cards := take removeIdx (cards p) @ drop (removeIdx + 1) (cards p)\<rparr>
                else p)
      in if length (cards p1) = 0 then p1\<lparr>eliminated := True, hand := [], stack := []\<rparr> else p1)"

definition afterRemoval :: "world \<Rightarrow> nat \<Rightarrow> int \<Rightarrow> int \<Rightarrow> player \<Rightarrow> world" where
  "afterRemoval w rnd loserIdx chosenIdx p =
          (let removeIdx = (if chosenIdx \<ge> 0 \<and> chosenIdx < int (length (cards p))
                            then nat chosenIdx else rnd mod length (cards p));
               p1 = (if length (cards p) > 0
                     then p\<lparr>cards := take removeIdx (cards p) @ drop (removeIdx + 1) (cards p)\<rparr>
                     else p);
               w1 = (if length (cards p) > 0
                     then addLog (set_player w loserIdx p1)
                                 (LogLoses (name p1) (int (length (cards p1))))
                     else w);
               w2 = (if length (cards p1) = 0
                     then addLog (set_player w1 loserIdx
                                    (p1\<lparr>eliminated := True, hand := [], stack := []\<rparr>))
                                 (LogEliminated (name p1))
                     else w1)
           in w2\<lparr>penaltyPlayer := -1\<rparr>)"

text \<open>The guard of a deadline callback: the phase and the turn owner it was scheduled for.\<close>

fun justified :: "world \<Rightarrow> deadlineCallback \<Rightarrow> bool" where
  "justified w (RoundStartExpiry firstPlayer) \<longleftrightarrow> phase w = Placing \<and> currentPlayer w = firstPlayer"
| "justified w (PlacingExpiry next) \<longleftrightarrow> phase w = Placing \<and> currentPlayer w = next"
| "justified w BidExpiry \<longleftrightarrow> phase w = Bidding"

text \<open>A state with a stale deadline: the game is started, the host resets the room, and the
  deadline of the first placement comes due in the lobby.\<close>

definition demoStale :: world where
  "demoStale = the (exec [JoinRoom ''s2'' ''Bob'', StartGame ''s1'', PlayAgain ''s1'', Tick 20000] demoLobby)"



section \<open>The core of a room and its abstract transitions\<close>

text \<open>
  The part of a world the game invariants speak about: of each seat the three token lists and
  the eliminated and passed flags; of the room the phase, the bid and turn fields, the cached
  table count, the seat indices of the revealed tokens; of the timeout table the pending
  resolution callbacks (penalty, challenge success, next round).
\<close>

record seat =
  s_cards :: "card list"
  s_hand :: "card list"
  s_stack :: "card list"
  s_elim :: bool
  s_passed :: bool

definition seatOf :: "player \<Rightarrow> seat" where
  "seatOf p = \<lparr>s_cards = cards p, s_hand = hand p, s_stack = stack p, s_elim = eliminated p,
               s_passed = passed p\<rparr>"

fun isResolution :: "callback \<Rightarrow> bool" where
  "isResolution (PenalizeCb f t) = True"
| "isResolution (ChallengeSuccessCb f) = True"
| "isResolution StartRoundCb = True"
| "isResolution cb = False"

record core =
  c_seats :: "seat list"
  c_started :: bool
  c_phase :: phase
  c_current :: int
  c_bid :: int
  c_bidder :: int
  c_total :: int
  c_first :: bool
  c_penalty :: int
  c_reveals :: "int list"
  c_pending :: "callback list"

definition coreOf :: "world \<Rightarrow> core" where
  "coreOf w =
     \<lparr>c_seats = map seatOf (players w), c_started = started w, c_phase = phase w,
      c_current = currentPlayer w, c_bid = currentBid w, c_bidder = highestBidder w,
      c_total = totalCoastersOnTable w, c_first = firstPlacement w,
      c_penalty = penaltyPlayer w, c_reveals = map rc_playerIndex (revealedCards w),
      c_pending = filter isResolution (map callback (timers w))\<rparr>"

text \<open>The transitions of the core, one per handler: a placement (\<open>a_place\<close>), the check that
  ends the bidding (\<open>a_check\<close>, after an opening \<open>a_open\<close>, a raise \<open>a_raise\<close>, a pass
  \<open>a_pass\<close> or the auto-pass \<open>a_autoPass\<close>), a flip (\<open>a_flipped\<close>), the removal of a token
  (\<open>a_removal\<close>, chosen or drawn), the penalty (\<open>a_penalize\<close>), and the start of a round and of
  a game. \<open>tableCount\<close> is \<open>countOnTable\<close> on seats.\<close>

definition tableCount :: "seat list \<Rightarrow> int" where
  "tableCount ss = sum_list (map (\<lambda>s. int (length (s_stack s))) ss)"

definition placeSeat :: "seat \<Rightarrow> nat \<Rightarrow> seat" where
  "placeSeat s k =
     s\<lparr>s_hand := take k (s_hand s) @ drop (k + 1) (s_hand s), s_stack := s_stack s @ [s_hand s ! k]\<rparr>"

definition a_place :: "core \<Rightarrow> nat \<Rightarrow> nat \<Rightarrow> int \<Rightarrow> core" where
  "a_place c i k next =
     (let ss = (c_seats c)[i := placeSeat (c_seats c ! i) k]
      in c\<lparr>c_seats := ss, c_total := tableCount ss,
           c_first := (if list_all (\<lambda>s. s_elim s \<or> s_stack s \<noteq> []) ss then False else c_first c),
           c_current := next\<rparr>)"

definition noOtherBidder :: "core \<Rightarrow> bool" where
  "noOtherBidder c \<longleftrightarrow>
     (\<forall>i < length (c_seats c).
        s_elim (c_seats c ! i) \<or> s_passed (c_seats c ! i) \<or> int i = c_bidder c)"

definition a_check :: "core \<Rightarrow> core" where
  "a_check c =
     (let c1 = c\<lparr>c_total := tableCount (c_seats c)\<rparr>
      in if noOtherBidder c \<or> c_bid c1 \<ge> c_total c1
         then c1\<lparr>c_phase := Flipping, c_current := c_bidder c, c_reveals := []\<rparr>
         else c1)"

definition a_open :: "core \<Rightarrow> int \<Rightarrow> int \<Rightarrow> core" where
  "a_open c i amount =
     c\<lparr>c_total := tableCount (c_seats c), c_phase := Bidding,
       c_bid := max 1 (min (if amount = 0 then 1 else amount) (tableCount (c_seats c))),
       c_bidder := i, c_seats := map (\<lambda>s. s\<lparr>s_passed := False\<rparr>) (c_seats c), c_current := -1\<rparr>"

definition a_raise :: "core \<Rightarrow> int \<Rightarrow> int \<Rightarrow> core" where
  "a_raise c i amount = c\<lparr>c_total := tableCount (c_seats c), c_bid := amount, c_bidder := i\<rparr>"

definition a_pass :: "core \<Rightarrow> nat \<Rightarrow> core" where
  "a_pass c i = c\<lparr>c_seats := (c_seats c)[i := (c_seats c ! i)\<lparr>s_passed := True\<rparr>]\<rparr>"

definition a_autoPass :: "core \<Rightarrow> core" where
  "a_autoPass c =
     c\<lparr>c_seats := map (\<lambda>(i, s). if \<not> s_elim s \<and> \<not> s_passed s \<and> int i \<noteq> c_bidder c
                                 then s\<lparr>s_passed := True\<rparr> else s)
                        (enumerate 0 (c_seats c))\<rparr>"

definition a_flipped :: "core \<Rightarrow> nat \<Rightarrow> core" where
  "a_flipped c t =
     (let ss = (c_seats c)[t := (c_seats c ! t)\<lparr>s_stack := butlast (s_stack (c_seats c ! t))\<rparr>]
      in c\<lparr>c_seats := ss, c_total := tableCount ss, c_reveals := c_reveals c @ [int t]\<rparr>)"

definition penalisedSeat :: "seat \<Rightarrow> nat \<Rightarrow> int \<Rightarrow> seat" where
  "penalisedSeat s rnd chosenIdx =
     (let removeIdx = (if chosenIdx \<ge> 0 \<and> chosenIdx < int (length (s_cards s))
                       then nat chosenIdx else rnd mod length (s_cards s));
          s1 = (if length (s_cards s) > 0
                then s\<lparr>s_cards := take removeIdx (s_cards s) @ drop (removeIdx + 1) (s_cards s)\<rparr>
                else s)
      in if length (s_cards s1) = 0 then s1\<lparr>s_elim := True, s_hand := [], s_stack := []\<rparr> else s1)"

definition a_removal :: "core \<Rightarrow> nat \<Rightarrow> nat \<Rightarrow> int \<Rightarrow> core" where
  "a_removal c l rnd chosenIdx =
     (let ss = (c_seats c)[l := penalisedSeat (c_seats c ! l) rnd chosenIdx];
          c1 = c\<lparr>c_seats := ss, c_penalty := -1\<rparr>
      in if length (filter (\<lambda>s. \<not> s_elim s) ss) \<le> 1
         then c1\<lparr>c_phase := GameOver\<rparr>
         else c1\<lparr>c_pending := c_pending c @ [StartRoundCb]\<rparr>)"

definition a_penalize :: "core \<Rightarrow> nat \<Rightarrow> int \<Rightarrow> int \<Rightarrow> core" where
  "a_penalize c rnd l s =
     (if l = s \<and> length (s_cards (c_seats c ! nat l)) > 1
      then c\<lparr>c_phase := Penalty, c_penalty := l\<rparr>
      else a_removal c (nat l) rnd (-1))"

definition resetSeat :: "seat \<Rightarrow> seat" where
  "resetSeat s = (if \<not> s_elim s then s\<lparr>s_hand := s_cards s, s_stack := [], s_passed := False\<rparr> else s)"

definition a_startRound :: "core \<Rightarrow> int \<Rightarrow> core" where
  "a_startRound c first =
     c\<lparr>c_phase := Placing, c_bid := 0, c_bidder := -1, c_total := 0, c_first := True,
       c_reveals := [], c_seats := map resetSeat (c_seats c), c_current := first\<rparr>"

definition a_startGame :: "core \<Rightarrow> int \<Rightarrow> core" where
  "a_startGame c first =
     a_startRound
       (c\<lparr>c_started := True,
          c_seats := map (\<lambda>s. s\<lparr>s_cards := [Rose, Rose, Rose, Skull], s_elim := False\<rparr>) (c_seats c)\<rparr>)
       first"

text \<open>What \<open>findNextActive\<close> and \<open>nextActiveUnpassed\<close> return: \<open>-1\<close> or a seat that is not
  eliminated. \<open>emptySeat\<close> is the seat of a player who has just joined.\<close>

definition seatAlive :: "core \<Rightarrow> int \<Rightarrow> bool" where
  "seatAlive c k \<longleftrightarrow>
     k = -1 \<or> (0 \<le> k \<and> nat k < length (c_seats c) \<and> \<not> s_elim (c_seats c ! nat k))"

definition emptySeat :: seat where
  "emptySeat = \<lparr>s_cards = [], s_hand = [], s_stack = [], s_elim = False, s_passed = False\<rparr>"

text \<open>The invariants of a game, on the core.
  \<^item> \<open>inv_phase\<close>: the room is started exactly when it has a phase.
  \<^item> \<open>inv_elim\<close>, \<open>inv_cards\<close>: an eliminated seat has an empty stack; in a started room a
    seat that is not eliminated has tokens.
  \<^item> \<open>inv_cache\<close>: in placing, bidding and flipping the cached count is the table count.
  \<^item> \<open>inv_tokens\<close>: in an active phase, before the next round is scheduled, the tokens of a
    seat are in its hand, on its stack or among the revealed ones (\<open>revealsOf\<close>).
  \<^item> \<open>inv_reveals\<close>: nothing is revealed in placing and bidding.
  \<^item> \<open>inv_pending\<close>: resolution callbacks are pending only in \<open>flip_result\<close> (one: the
    penalty of the bidder for the last revealed seat, the point of the bidder, or the next
    round) and in \<open>penalty\<close> once the token has been chosen (the next round).
  \<^item> \<open>inv_bidder\<close>: from flipping on, the turn owner is the highest bidder, a seat that is
    not eliminated until the token is removed.
  \<^item> \<open>inv_alive\<close>: a game that is not over has at least two seats that are not eliminated.
  \<^item> \<open>inv_placed\<close>: after the first placement round every such seat has a token on its stack.
  \<^item> \<open>inv_bid\<close>: in bidding the bid is at least 1 and below the table count, the bidder is
    a seat that is not eliminated, and some other such seat has not passed.
  \<^item> \<open>inv_turn\<close>: in placing the turn owner is \<open>-1\<close> or a seat that is not eliminated.\<close>

definition revealsOf :: "core \<Rightarrow> nat \<Rightarrow> nat" where
  "revealsOf c i = length (filter (\<lambda>k. k = int i) (c_reveals c))"

definition activePhase :: "phase \<Rightarrow> bool" where
  "activePhase ph \<longleftrightarrow> ph \<in> {Placing, Bidding, Flipping, FlipResult, Penalty}"

definition inv_phase :: "core \<Rightarrow> bool" where
  "inv_phase c \<longleftrightarrow> (c_started c \<longleftrightarrow> c_phase c \<noteq> NoPhase)"

definition inv_elim :: "core \<Rightarrow> bool" where
  "inv_elim c \<longleftrightarrow> (\<forall>s \<in> set (c_seats c). s_elim s \<longrightarrow> s_stack s = [])"

definition inv_cards :: "core \<Rightarrow> bool" where
  "inv_cards c \<longleftrightarrow> (c_started c \<longrightarrow> (\<forall>s \<in> set (c_seats c). \<not> s_elim s \<longrightarrow> s_cards s \<noteq> []))"

definition inv_cache :: "core \<Rightarrow> bool" where
  "inv_cache c \<longleftrightarrow>
     (c_phase c \<in> {Placing, Bidding, Flipping} \<longrightarrow> c_total c = tableCount (c_seats c))"

definition inv_tokens :: "core \<Rightarrow> bool" where
  "inv_tokens c \<longleftrightarrow>
     (activePhase (c_phase c) \<and> StartRoundCb \<notin> set (c_pending c) \<longrightarrow>
        (\<forall>i < length (c_seats c). \<not> s_elim (c_seats c ! i) \<longrightarrow>
           length (s_hand (c_seats c ! i)) + length (s_stack (c_seats c ! i)) + revealsOf c i
             = length (s_cards (c_seats c ! i))))"

definition inv_reveals :: "core \<Rightarrow> bool" where
  "inv_reveals c \<longleftrightarrow> (c_phase c \<in> {Placing, Bidding} \<longrightarrow> c_reveals c = [])"

definition inv_pending :: "core \<Rightarrow> bool" where
  "inv_pending c \<longleftrightarrow>
     (c_phase c \<notin> {FlipResult, Penalty} \<longrightarrow> c_pending c = []) \<and>
     (c_phase c = FlipResult \<longrightarrow>
        c_pending c = [StartRoundCb] \<or>
        (\<exists>t. c_pending c = [PenalizeCb (c_bidder c) t] \<and> c_reveals c \<noteq> [] \<and> last (c_reveals c) = t) \<or>
        c_pending c = [ChallengeSuccessCb (c_bidder c)]) \<and>
     (c_phase c = Penalty \<longrightarrow>
        (c_penalty c = c_bidder c \<and> c_pending c = []) \<or>
        (c_penalty c = -1 \<and> c_pending c = [StartRoundCb]))"

definition inv_bidder :: "core \<Rightarrow> bool" where
  "inv_bidder c \<longleftrightarrow>
     (c_phase c \<in> {Flipping, FlipResult, Penalty} \<longrightarrow>
        c_current c = c_bidder c \<and> 0 \<le> c_bidder c \<and> nat (c_bidder c) < length (c_seats c)) \<and>
     (c_phase c = Flipping \<or>
      (c_phase c \<in> {FlipResult, Penalty} \<and> StartRoundCb \<notin> set (c_pending c)) \<longrightarrow>
        \<not> s_elim (c_seats c ! nat (c_bidder c)))"

definition inv_alive :: "core \<Rightarrow> bool" where
  "inv_alive c \<longleftrightarrow>
     (c_started c \<and> c_phase c \<noteq> GameOver \<longrightarrow> 2 \<le> length (filter (\<lambda>s. \<not> s_elim s) (c_seats c)))"

definition inv_placed :: "core \<Rightarrow> bool" where
  "inv_placed c \<longleftrightarrow>
     (c_phase c = Placing \<and> \<not> c_first c \<longrightarrow>
        (\<forall>s \<in> set (c_seats c). \<not> s_elim s \<longrightarrow> s_stack s \<noteq> []))"

definition inv_bid :: "core \<Rightarrow> bool" where
  "inv_bid c \<longleftrightarrow>
     (c_phase c = Bidding \<longrightarrow>
        1 \<le> c_bid c \<and> c_bid c < tableCount (c_seats c) \<and>
        0 \<le> c_bidder c \<and> nat (c_bidder c) < length (c_seats c) \<and>
        \<not> s_elim (c_seats c ! nat (c_bidder c)) \<and> \<not> noOtherBidder c)"

definition inv_turn :: "core \<Rightarrow> bool" where
  "inv_turn c \<longleftrightarrow> (c_phase c = Placing \<longrightarrow> seatAlive c (c_current c))"

definition cinv :: "core \<Rightarrow> bool" where
  "cinv c \<longleftrightarrow>
     inv_phase c \<and> inv_elim c \<and> inv_cards c \<and> inv_cache c \<and> inv_tokens c \<and> inv_reveals c \<and>
     inv_pending c \<and> inv_bidder c \<and> inv_alive c \<and> inv_placed c \<and> inv_bid c \<and> inv_turn c"

text \<open>What holds when \<open>checkBiddingEnd\<close> is entered: the bid may have reached the table
  count and all other seats may have passed; the check then moves the room to flipping.\<close>

definition precheck :: "core \<Rightarrow> bool" where
  "precheck c \<longleftrightarrow>
     inv_phase c \<and> inv_elim c \<and> inv_cards c \<and> inv_tokens c \<and> inv_reveals c \<and> inv_pending c \<and>
     inv_alive c \<and> c_phase c = Bidding \<and> 1 \<le> c_bid c \<and> c_bid c \<le> tableCount (c_seats c) \<and>
     0 \<le> c_bidder c \<and> nat (c_bidder c) < length (c_seats c) \<and>
     \<not> s_elim (c_seats c ! nat (c_bidder c))"

text \<open>The invariant of the world: the timeout table is in order and the core is.\<close>

definition ginv :: "world \<Rightarrow> bool" where
  "ginv w \<longleftrightarrow> timersOk w \<and> cinv (coreOf w)"

text \<open>The number of a seat's tokens in the reveal list.\<close>

definition revealedOf :: "'a room_scheme \<Rightarrow> nat \<Rightarrow> nat" where
  "revealedOf r i = length (filter (\<lambda>rc. rc_playerIndex rc = int i) (revealedCards r))"

text \<open>A list of events runs from a state when no handler throws. Sample states of the game
  of Ann and Bob: after Ann's first placement, and after Ann, having opened with 2 on a
  table of 2, has flipped her own rose.\<close>

definition runs :: "event list \<Rightarrow> world \<Rightarrow> bool" where
  "runs es w = (case exec es w of None \<Rightarrow> False | Some w' \<Rightarrow> True)"

definition demoPlacing :: world where
  "demoPlacing = the (exec [JoinRoom ''s2'' ''Bob'', StartGame ''s1'', PlaceCard ''s1'' 0] demoLobby)"

definition demoFlipped :: world where
  "demoFlipped = the (exec (demoTrace @ [FlipCoaster ''s1'' 0]) demoLobby)"

text \<open>The checks of \<open>handleRaiseBid\<close>, in the order of the handler: phase, the raiser has not
  passed and is not eliminated, is not the highest bidder, and the amount is above the bid and
  at most the table count.\<close>

definition raiseAllowed :: "world \<Rightarrow> int \<Rightarrow> int \<Rightarrow> bool" where
  "raiseAllowed w pIdx amount \<longleftrightarrow>
     phase w = Bidding \<and>
     (case player_at w pIdx of None \<Rightarrow> False | Some p \<Rightarrow> \<not> passed p \<and> \<not> eliminated p) \<and>
     pIdx \<noteq> highestBidder w \<and>
     currentBid w < amount \<and> amount \<le> countOnTable w"


text \<open>The checks of the socket handlers of the in-game actions (the room is registered and
  started, the sender holds a seat) and of the handlers they call, written from their guards:
  \<open>handlePlace\<close>, \<open>handleStartBid\<close>, \<open>handlePass\<close> and \<open>handlePenaltyDiscard\<close>
  (\<open>handleFlip\<close> and \<open>handleRaiseBid\<close> are above).\<close>

definition seated :: "world \<Rightarrow> socketId \<Rightarrow> bool" where
  "seated w sid \<longleftrightarrow> inRegistry w \<and> started w \<and> playerIndex w sid \<noteq> -1"


definition startBidAllowed :: "world \<Rightarrow> int \<Rightarrow> bool" where
  "startBidAllowed w pIdx \<longleftrightarrow> phase w = Placing \<and> currentPlayer w = pIdx \<and> \<not> firstPlacement w"

definition passAllowed :: "world \<Rightarrow> int \<Rightarrow> bool" where
  "passAllowed w pIdx \<longleftrightarrow>
     phase w = Bidding \<and>
     (case player_at w pIdx of None \<Rightarrow> False | Some p \<Rightarrow> \<not> passed p \<and> \<not> eliminated p) \<and>
     pIdx \<noteq> highestBidder w"








section \<open>The states of the games of a room\<close>

text \<open>The handler of \<open>playAgain\<close> checks no phase and cancels no timeout, so a callback that
  resolves a flip (the penalty, the point or the start of the next round, scheduled 1.2 to 2
  seconds ahead) survives a reset and would run in the lobby or in the next game. The states
  below are those of a room in which \<open>playAgain\<close> is only sent while no such callback is
  pending (\<open>quiescent\<close>): the lobby and every game of the room, as long as the host does not
  reset the room during the delay that follows a flip.\<close>

definition quiescent :: "world \<Rightarrow> bool" where
  "quiescent w \<longleftrightarrow> list_all (\<lambda>t. \<not> isResolution (callback t)) (timers w)"

inductive game_reachable :: "world \<Rightarrow> bool" where
  g_created: "on_createRoom c sid nm t = Some w \<Longrightarrow> game_reachable w"
| g_stepped: "game_reachable w \<Longrightarrow> isPlayAgain e \<longrightarrow> quiescent w \<Longrightarrow> step e w = Some w' \<Longrightarrow>
              game_reachable w'"

text \<open>The bid actions: an opening, a raise or a pass that passes the checks of its handler,
  and the firing of the bidding deadline while the room is bidding.\<close>

fun bidAction :: "world \<Rightarrow> event \<Rightarrow> bool" where
  "bidAction w (StartBid sid amount) \<longleftrightarrow> seated w sid \<and> startBidAllowed w (playerIndex w sid)"
| "bidAction w (RaiseBid sid amount) \<longleftrightarrow>
     seated w sid \<and> raiseAllowed w (playerIndex w sid) amount"
| "bidAction w (Pass sid) \<longleftrightarrow> seated w sid \<and> passAllowed w (playerIndex w sid)"
| "bidAction w (Fire h rnd) \<longleftrightarrow>
     phase w = Bidding \<and>
     (case find (\<lambda>t. handle t = h) (timers w) of
        None \<Rightarrow> False
      | Some t \<Rightarrow> callback t = Deadline BidExpiry \<and> due t \<le> now w)"
| "bidAction w e \<longleftrightarrow> False"



section \<open>Basic facts\<close>

text \<open>The loop equations are used by computation induction only.\<close>

declare findNextActive_loop.simps [simp del] nextActiveUnpassed_loop.simps [simp del]

lemma findIndex_range: "findIndex P xs = -1 \<or> (0 \<le> findIndex P xs \<and> findIndex P xs < int (length xs))"
  by (induction xs) (auto simp: Let_def)

lemma findIndex_ge: "- 1 \<le> findIndex P xs"
  using findIndex_range [of P xs] by auto

lemma findIndex_sat: "0 \<le> findIndex P xs \<Longrightarrow> P (xs ! nat (findIndex P xs))"
proof (induction xs)
  case Nil
  then show ?case by simp
next
  case (Cons x xs)
  show ?case
  proof (cases "P x")
    case True
    then show ?thesis by simp
  next
    case False
    with Cons.prems have k: "0 \<le> findIndex P xs"
      by (simp add: Let_def split: if_splits)
    with Cons.IH have "P (xs ! nat (findIndex P xs))" by simp
    with False k show ?thesis
      by (simp add: Let_def nat_add_distrib)
  qed
qed

lemma findIndex_none: "findIndex P xs < 0 \<longleftrightarrow> (\<forall>x \<in> set xs. \<not> P x)"
  using findIndex_ge [of P]
  by (induction xs) (auto simp: Let_def)

lemma playerIndex_cases:
  "playerIndex r sid = -1 \<or> (0 \<le> playerIndex r sid \<and> playerIndex r sid < int (length (players r)))"
  unfolding playerIndex_def by (rule findIndex_range)

lemma findIndex_map: "findIndex P (map f xs) = findIndex (\<lambda>x. P (f x)) xs"
  by (induction xs) (simp_all add: Let_def)

lemma playerIndex_idents: "playerIndex r sid = findIndex (\<lambda>s. s = sid) (map ident (players r))"
  by (simp add: playerIndex_def findIndex_map)

lemma map_ident_hand_update:
  "map ident (ps[j := (ps ! j)\<lparr>hand := h\<rparr>]) = map ident ps"
proof (rule nth_equalityI)
  fix i assume "i < length (map ident (ps[j := (ps ! j)\<lparr>hand := h\<rparr>]))"
  then show "map ident (ps[j := (ps ! j)\<lparr>hand := h\<rparr>]) ! i = map ident ps ! i"
    by (cases "i = j") auto
qed simp

lemma playerIndex_hand_update:
  "playerIndex (r\<lparr>players := (players r)[j := (players r ! j)\<lparr>hand := h\<rparr>]\<rparr>) sid = playerIndex r sid"
  by (simp add: playerIndex_idents map_ident_hand_update)

lemma stateForPlayer_alt:
  "stateForPlayer r sid = map_option (viewWith r sid) (penaltyCardsFor r (playerIndex r sid))"
  unfolding stateForPlayer_def Let_def viewWith_def penaltyCardsFor_def playerViewOf_def
  by (cases "phase r = Penalty \<and> penaltyPlayer r = playerIndex r sid";
      cases "player_at r (playerIndex r sid)") simp_all

lemma penaltyCardsFor_None:
  "penaltyCardsFor r (playerIndex r sid) = None \<longleftrightarrow>
     (phase r = Penalty \<and> penaltyPlayer r = -1 \<and> playerIndex r sid = -1)"
  using playerIndex_cases [of r sid]
  by (auto simp: penaltyCardsFor_def player_at_def split: option.splits)

lemma stateForPlayer_None_iff:
  "stateForPlayer r sid = None \<longleftrightarrow>
     (phase r = Penalty \<and> penaltyPlayer r = -1 \<and> playerIndex r sid = -1)"
  by (simp add: stateForPlayer_alt penaltyCardsFor_None)

lemma stateForPlayer_players:
  assumes "stateForPlayer r sid = Some v"
  shows "v_players v = map (playerViewOf (playerIndex r sid)) (enumerate 0 (players r))"
  using assms by (auto simp: stateForPlayer_alt viewWith_def)

lemma stateForPlayer_seat:
  assumes "stateForPlayer r sid = Some v" and "i < length (players r)"
  shows "pv_handCount (v_players v ! i) = int (length (hand (players r ! i))) \<and>
         pv_stackCount (v_players v ! i) = int (length (stack (players r ! i))) \<and>
         pv_totalCards (v_players v ! i) = int (length (cards (players r ! i))) \<and>
         pv_wins (v_players v ! i) = wins (players r ! i) \<and>
         pv_connected (v_players v ! i) = connected (players r ! i) \<and>
         pv_eliminated (v_players v ! i) = eliminated (players r ! i) \<and>
         pv_passed (v_players v ! i) = passed (players r ! i) \<and>
         pv_hand (v_players v ! i) =
           (if int i = playerIndex r sid then Some (hand (players r ! i)) else None)"
  using assms(2) by (simp add: stateForPlayer_players [OF assms(1)] nth_enumerate_eq playerViewOf_def)

lemma stateForPlayer_penaltyCards:
  assumes "stateForPlayer r sid = Some v"
  shows "v_penaltyCards v =
        (if phase r = Penalty \<and> penaltyPlayer r = playerIndex r sid
         then Some (cards (players r ! nat (playerIndex r sid))) else None)"
  using assms
  by (auto simp: stateForPlayer_alt viewWith_def penaltyCardsFor_def player_at_def
           split: if_splits option.splits)

lemma stateForPlayer_hand_independent:
  assumes j: "j < length (players r)" and nj: "int j \<noteq> playerIndex r sid"
    and len: "length h = length (hand (players r ! j))"
  shows "stateForPlayer (r\<lparr>players := (players r)[j := (players r ! j)\<lparr>hand := h\<rparr>]\<rparr>) sid
        = stateForPlayer r sid"
proof -
  let ?r' = "r\<lparr>players := (players r)[j := (players r ! j)\<lparr>hand := h\<rparr>]\<rparr>"
  have m: "playerIndex ?r' sid = playerIndex r sid" by (rule playerIndex_hand_update)
  have pa: "penaltyCardsFor ?r' (playerIndex r sid) = penaltyCardsFor r (playerIndex r sid)"
    using j nj by (auto simp: penaltyCardsFor_def player_at_def nth_list_update)
  have pl: "map (playerViewOf (playerIndex r sid)) (enumerate 0 (players ?r'))
     = map (playerViewOf (playerIndex r sid)) (enumerate 0 (players r))"
    using j nj len
    by (auto simp: list_eq_iff_nth_eq nth_enumerate_eq nth_list_update playerViewOf_def)
  have vw: "viewWith ?r' sid pc = viewWith r sid pc" for pc
    unfolding viewWith_def m pl by simp
  show ?thesis
    unfolding stateForPlayer_alt m pa by (simp add: vw cong: map_option_cong)
qed

lemma playerIndex_member: "p \<in> set (players r) \<Longrightarrow> 0 \<le> playerIndex r (ident p)"
  using findIndex_none [of "\<lambda>q. ident q = ident p" "players r"]
  by (auto simp: playerIndex_def not_less [symmetric])

lemma stateForPlayer_member:
  assumes "0 \<le> playerIndex r sid"
  shows "stateForPlayer r sid = Some (memberView r sid)"
  using assms playerIndex_cases [of r sid]
  by (auto simp: stateForPlayer_alt memberView_def penaltyCardsFor_def player_at_def)

lemma those_map_Some: "those (map (\<lambda>x. Some (f x)) xs) = Some (map f xs)"
  by (induction xs) simp_all

lemma broadcastState_Some [simp]:
  "broadcastState w = Some (w\<lparr>outbox := outbox w @ stateMsgs w\<rparr>)"
proof -
  have "map (\<lambda>p. map_option (GameStateMsg (ident p)) (stateForPlayer w (ident p))) (players w)
        = map (\<lambda>p. Some (GameStateMsg (ident p) (memberView w (ident p)))) (players w)"
    by (rule map_cong) (simp_all add: stateForPlayer_member playerIndex_member)
  then show ?thesis
    unfolding broadcastState_def by (simp only: those_map_Some stateMsgs_def bind.bind_lunit)
qed

lemma findIndex_nonneg_iff: "0 \<le> findIndex P xs \<longleftrightarrow> (\<exists>x \<in> set xs. P x)"
  using findIndex_none [of P xs] by auto

lemma findIndex_least: "0 \<le> findIndex P xs \<Longrightarrow> i < nat (findIndex P xs) \<Longrightarrow> \<not> P (xs ! i)"
proof (induction xs arbitrary: i)
  case Nil
  then show ?case by simp
next
  case (Cons x xs)
  show ?case
  proof (cases "P x")
    case True
    with Cons.prems show ?thesis by simp
  next
    case False
    with Cons.prems have k: "0 \<le> findIndex P xs"
      by (simp add: Let_def split: if_splits)
    show ?thesis
    proof (cases i)
      case 0
      with False show ?thesis by simp
    next
      case (Suc j)
      with Cons.prems False k have "j < nat (findIndex P xs)"
        by (simp add: Let_def nat_add_distrib)
      with Cons.IH k Suc show ?thesis by simp
    qed
  qed
qed

lemma player_at_findIndex:
  "player_at w (findIndex P (players w)) =
     (if \<exists>p \<in> set (players w). P p then Some (players w ! nat (findIndex P (players w))) else None)"
  using findIndex_range [of P "players w"] findIndex_nonneg_iff [of P "players w"]
  by (auto simp: player_at_def)

lemma findIndex_first:
  assumes "i < length xs"
  shows "findIndex P xs = int i \<longleftrightarrow> P (xs ! i) \<and> (\<forall>j < i. \<not> P (xs ! j))"
proof
  assume e: "findIndex P xs = int i"
  then have nn: "0 \<le> findIndex P xs" by simp
  from findIndex_sat [OF nn] e have "P (xs ! i)" by simp
  moreover from findIndex_least [OF nn] e have "\<forall>j < i. \<not> P (xs ! j)" by simp
  ultimately show "P (xs ! i) \<and> (\<forall>j < i. \<not> P (xs ! j))" by simp
next
  assume a: "P (xs ! i) \<and> (\<forall>j < i. \<not> P (xs ! j))"
  from assms have "xs ! i \<in> set xs" by simp
  with a have "\<exists>x \<in> set xs. P x" by blast
  then have nn: "0 \<le> findIndex P xs" by (simp add: findIndex_nonneg_iff)
  let ?k = "nat (findIndex P xs)"
  from findIndex_sat [OF nn] have pk: "P (xs ! ?k)" .
  have "\<not> ?k < i" using a pk by auto
  moreover have "\<not> i < ?k" using findIndex_least [OF nn, of i] a by auto
  ultimately have "?k = i" by simp
  with nn show "findIndex P xs = int i" by simp
qed

lemma playerIndex_first:
  "i < length (players r) \<Longrightarrow>
   playerIndex r sid = int i \<longleftrightarrow>
     ident (players r ! i) = sid \<and> (\<forall>j < i. ident (players r ! j) \<noteq> sid)"
  unfolding playerIndex_def by (rule findIndex_first)

lemma playerIndex_absent:
  "playerIndex r sid = -1 \<longleftrightarrow> (\<forall>p \<in> set (players r). ident p \<noteq> sid)"
  using findIndex_none [of "\<lambda>p. ident p = sid" "players r"]
        findIndex_range [of "\<lambda>p. ident p = sid" "players r"]
  by (auto simp: playerIndex_def)

lemma stateForPlayer_own_hand:
  assumes v: "stateForPlayer r sid = Some v" and i: "i < length (players r)"
  shows "pv_hand (v_players v ! i) \<noteq> None \<longleftrightarrow>
           ident (players r ! i) = sid \<and> (\<forall>j < i. ident (players r ! j) \<noteq> sid)"
    and "pv_hand (v_players v ! i) \<noteq> None \<longrightarrow> pv_hand (v_players v ! i) = Some (hand (players r ! i))"
    and "pv_isMe (v_players v ! i) \<longleftrightarrow>
           ident (players r ! i) = sid \<and> (\<forall>j < i. ident (players r ! j) \<noteq> sid)"
proof -
  from stateForPlayer_seat [OF v i]
  have h: "pv_hand (v_players v ! i) =
           (if int i = playerIndex r sid then Some (hand (players r ! i)) else None)" by simp
  from h playerIndex_first [OF i, of sid]
  show "pv_hand (v_players v ! i) \<noteq> None \<longleftrightarrow>
           ident (players r ! i) = sid \<and> (\<forall>j < i. ident (players r ! j) \<noteq> sid)"
    by (auto split: if_splits)
  from h show "pv_hand (v_players v ! i) \<noteq> None \<longrightarrow>
                 pv_hand (v_players v ! i) = Some (hand (players r ! i))"
    by (auto split: if_splits)
  have "pv_isMe (v_players v ! i) \<longleftrightarrow> int i = playerIndex r sid"
    using i by (simp add: stateForPlayer_players [OF v] nth_enumerate_eq playerViewOf_def)
  with playerIndex_first [OF i, of sid]
  show "pv_isMe (v_players v ! i) \<longleftrightarrow>
           ident (players r ! i) = sid \<and> (\<forall>j < i. ident (players r ! j) \<noteq> sid)"
    by auto
qed

lemma stateForPlayer_penalty_owner:
  assumes v: "stateForPlayer r sid = Some v" and c: "v_penaltyCards v = Some cs"
  shows "phase r = Penalty \<and>
         (\<exists>p. player_at r (penaltyPlayer r) = Some p \<and> ident p = sid \<and> cs = cards p)"
proof -
  from stateForPlayer_penaltyCards [OF v] c
  have a: "phase r = Penalty" "penaltyPlayer r = playerIndex r sid"
    and e: "cs = cards (players r ! nat (playerIndex r sid))"
    by (auto split: if_splits)
  from v a have "playerIndex r sid \<noteq> -1"
    using stateForPlayer_None_iff [of r sid] by auto
  with playerIndex_cases [of r sid]
  have rg: "0 \<le> playerIndex r sid" "nat (playerIndex r sid) < length (players r)" by auto
  then have "playerIndex r sid = int (nat (playerIndex r sid))" by simp
  with playerIndex_first [OF rg(2), of sid]
  have "ident (players r ! nat (playerIndex r sid)) = sid" by blast
  with a e rg show ?thesis by (simp add: player_at_def)
qed

lemma stateForPlayer_foreign_hand:
  assumes j: "j < length (players r)" and nj: "ident (players r ! j) \<noteq> sid"
    and len: "length h = length (hand (players r ! j))"
  shows "stateForPlayer (r\<lparr>players := (players r)[j := (players r ! j)\<lparr>hand := h\<rparr>]\<rparr>) sid
        = stateForPlayer r sid"
proof -
  from playerIndex_first [OF j, of sid] nj have "int j \<noteq> playerIndex r sid" by auto
  with j len show ?thesis by (intro stateForPlayer_hand_independent)
qed

section \<open>Frame facts\<close>

text \<open>Which fields the helpers leave alone.\<close>

lemma addLog_frame [simp]:
  "code (addLog w m) = code w"
  "players (addLog w m) = players w"
  "hostId (addLog w m) = hostId w"
  "started (addLog w m) = started w"
  "phase (addLog w m) = phase w"
  "currentPlayer (addLog w m) = currentPlayer w"
  "currentBid (addLog w m) = currentBid w"
  "highestBidder (addLog w m) = highestBidder w"
  "flipsRemaining (addLog w m) = flipsRemaining w"
  "totalCoastersOnTable (addLog w m) = totalCoastersOnTable w"
  "roundNum (addLog w m) = roundNum w"
  "firstPlacement (addLog w m) = firstPlacement w"
  "nextRoundStarter (addLog w m) = nextRoundStarter w"
  "penaltyPlayer (addLog w m) = penaltyPlayer w"
  "turnDeadline (addLog w m) = turnDeadline w"
  "turnTimer (addLog w m) = turnTimer w"
  "revealedCards (addLog w m) = revealedCards w"
  "timers (addLog w m) = timers w"
  "nextTimer (addLog w m) = nextTimer w"
  "now (addLog w m) = now w"
  "outbox (addLog w m) = outbox w"
  "inRegistry (addLog w m) = inRegistry w"
  by (simp_all add: addLog_def Let_def)

lemma set_player_frame [simp]:
  "code (set_player w i p) = code w"
  "hostId (set_player w i p) = hostId w"
  "started (set_player w i p) = started w"
  "phase (set_player w i p) = phase w"
  "currentPlayer (set_player w i p) = currentPlayer w"
  "currentBid (set_player w i p) = currentBid w"
  "highestBidder (set_player w i p) = highestBidder w"
  "flipsRemaining (set_player w i p) = flipsRemaining w"
  "totalCoastersOnTable (set_player w i p) = totalCoastersOnTable w"
  "roundNum (set_player w i p) = roundNum w"
  "firstPlacement (set_player w i p) = firstPlacement w"
  "nextRoundStarter (set_player w i p) = nextRoundStarter w"
  "penaltyPlayer (set_player w i p) = penaltyPlayer w"
  "turnDeadline (set_player w i p) = turnDeadline w"
  "turnTimer (set_player w i p) = turnTimer w"
  "log (set_player w i p) = log w"
  "revealedCards (set_player w i p) = revealedCards w"
  "timers (set_player w i p) = timers w"
  "nextTimer (set_player w i p) = nextTimer w"
  "now (set_player w i p) = now w"
  "outbox (set_player w i p) = outbox w"
  "inRegistry (set_player w i p) = inRegistry w"
  by (simp_all add: set_player_def)

lemma setTimeout_frame [simp]:
  "code (setTimeout w cb ms) = code w"
  "players (setTimeout w cb ms) = players w"
  "hostId (setTimeout w cb ms) = hostId w"
  "started (setTimeout w cb ms) = started w"
  "phase (setTimeout w cb ms) = phase w"
  "currentPlayer (setTimeout w cb ms) = currentPlayer w"
  "currentBid (setTimeout w cb ms) = currentBid w"
  "highestBidder (setTimeout w cb ms) = highestBidder w"
  "flipsRemaining (setTimeout w cb ms) = flipsRemaining w"
  "totalCoastersOnTable (setTimeout w cb ms) = totalCoastersOnTable w"
  "roundNum (setTimeout w cb ms) = roundNum w"
  "firstPlacement (setTimeout w cb ms) = firstPlacement w"
  "nextRoundStarter (setTimeout w cb ms) = nextRoundStarter w"
  "penaltyPlayer (setTimeout w cb ms) = penaltyPlayer w"
  "turnDeadline (setTimeout w cb ms) = turnDeadline w"
  "turnTimer (setTimeout w cb ms) = turnTimer w"
  "log (setTimeout w cb ms) = log w"
  "revealedCards (setTimeout w cb ms) = revealedCards w"
  "now (setTimeout w cb ms) = now w"
  "outbox (setTimeout w cb ms) = outbox w"
  "inRegistry (setTimeout w cb ms) = inRegistry w"
  by (simp_all add: setTimeout_def)

lemma clearTurnTimer_frame [simp]:
  "code (clearTurnTimer w) = code w"
  "players (clearTurnTimer w) = players w"
  "hostId (clearTurnTimer w) = hostId w"
  "started (clearTurnTimer w) = started w"
  "phase (clearTurnTimer w) = phase w"
  "currentPlayer (clearTurnTimer w) = currentPlayer w"
  "currentBid (clearTurnTimer w) = currentBid w"
  "highestBidder (clearTurnTimer w) = highestBidder w"
  "flipsRemaining (clearTurnTimer w) = flipsRemaining w"
  "totalCoastersOnTable (clearTurnTimer w) = totalCoastersOnTable w"
  "roundNum (clearTurnTimer w) = roundNum w"
  "firstPlacement (clearTurnTimer w) = firstPlacement w"
  "nextRoundStarter (clearTurnTimer w) = nextRoundStarter w"
  "penaltyPlayer (clearTurnTimer w) = penaltyPlayer w"
  "log (clearTurnTimer w) = log w"
  "revealedCards (clearTurnTimer w) = revealedCards w"
  "nextTimer (clearTurnTimer w) = nextTimer w"
  "now (clearTurnTimer w) = now w"
  "outbox (clearTurnTimer w) = outbox w"
  "inRegistry (clearTurnTimer w) = inRegistry w"
  by (simp_all add: clearTurnTimer_def clearTimeout_def split: option.splits)

lemma startTurnTimer_frame [simp]:
  "code (startTurnTimer w s cb) = code w"
  "players (startTurnTimer w s cb) = players w"
  "hostId (startTurnTimer w s cb) = hostId w"
  "started (startTurnTimer w s cb) = started w"
  "phase (startTurnTimer w s cb) = phase w"
  "currentPlayer (startTurnTimer w s cb) = currentPlayer w"
  "currentBid (startTurnTimer w s cb) = currentBid w"
  "highestBidder (startTurnTimer w s cb) = highestBidder w"
  "flipsRemaining (startTurnTimer w s cb) = flipsRemaining w"
  "totalCoastersOnTable (startTurnTimer w s cb) = totalCoastersOnTable w"
  "roundNum (startTurnTimer w s cb) = roundNum w"
  "firstPlacement (startTurnTimer w s cb) = firstPlacement w"
  "nextRoundStarter (startTurnTimer w s cb) = nextRoundStarter w"
  "penaltyPlayer (startTurnTimer w s cb) = penaltyPlayer w"
  "log (startTurnTimer w s cb) = log w"
  "revealedCards (startTurnTimer w s cb) = revealedCards w"
  "now (startTurnTimer w s cb) = now w"
  "outbox (startTurnTimer w s cb) = outbox w"
  "inRegistry (startTurnTimer w s cb) = inRegistry w"
  by (simp_all add: startTurnTimer_def setTimeout_def clearTurnTimer_def clearTimeout_def Let_def split: option.splits)

lemma foldl_addLog_fields [simp]:
  "code (foldl addLog w ms) = code w"
  "players (foldl addLog w ms) = players w"
  "hostId (foldl addLog w ms) = hostId w"
  "started (foldl addLog w ms) = started w"
  "phase (foldl addLog w ms) = phase w"
  "currentPlayer (foldl addLog w ms) = currentPlayer w"
  "currentBid (foldl addLog w ms) = currentBid w"
  "highestBidder (foldl addLog w ms) = highestBidder w"
  "flipsRemaining (foldl addLog w ms) = flipsRemaining w"
  "totalCoastersOnTable (foldl addLog w ms) = totalCoastersOnTable w"
  "roundNum (foldl addLog w ms) = roundNum w"
  "firstPlacement (foldl addLog w ms) = firstPlacement w"
  "nextRoundStarter (foldl addLog w ms) = nextRoundStarter w"
  "penaltyPlayer (foldl addLog w ms) = penaltyPlayer w"
  "turnDeadline (foldl addLog w ms) = turnDeadline w"
  "turnTimer (foldl addLog w ms) = turnTimer w"
  "revealedCards (foldl addLog w ms) = revealedCards w"
  "timers (foldl addLog w ms) = timers w"
  "nextTimer (foldl addLog w ms) = nextTimer w"
  "now (foldl addLog w ms) = now w"
  "outbox (foldl addLog w ms) = outbox w"
  "inRegistry (foldl addLog w ms) = inRegistry w"
  by (induction ms arbitrary: w; simp add: addLog_def Let_def)+

lemma autoPass_frame [simp]:
  "code (autoPass w) = code w"
  "hostId (autoPass w) = hostId w"
  "started (autoPass w) = started w"
  "phase (autoPass w) = phase w"
  "currentPlayer (autoPass w) = currentPlayer w"
  "currentBid (autoPass w) = currentBid w"
  "highestBidder (autoPass w) = highestBidder w"
  "flipsRemaining (autoPass w) = flipsRemaining w"
  "totalCoastersOnTable (autoPass w) = totalCoastersOnTable w"
  "roundNum (autoPass w) = roundNum w"
  "firstPlacement (autoPass w) = firstPlacement w"
  "nextRoundStarter (autoPass w) = nextRoundStarter w"
  "penaltyPlayer (autoPass w) = penaltyPlayer w"
  "turnDeadline (autoPass w) = turnDeadline w"
  "turnTimer (autoPass w) = turnTimer w"
  "revealedCards (autoPass w) = revealedCards w"
  "timers (autoPass w) = timers w"
  "nextTimer (autoPass w) = nextTimer w"
  "now (autoPass w) = now w"
  "outbox (autoPass w) = outbox w"
  "inRegistry (autoPass w) = inRegistry w"
  by (simp_all add: autoPass_def Let_def)

lemma players_passed_set_bidder_frame [simp]:
  "code (players_passed_set_bidder w i) = code w"
  "hostId (players_passed_set_bidder w i) = hostId w"
  "started (players_passed_set_bidder w i) = started w"
  "phase (players_passed_set_bidder w i) = phase w"
  "currentPlayer (players_passed_set_bidder w i) = currentPlayer w"
  "currentBid (players_passed_set_bidder w i) = currentBid w"
  "highestBidder (players_passed_set_bidder w i) = highestBidder w"
  "flipsRemaining (players_passed_set_bidder w i) = flipsRemaining w"
  "totalCoastersOnTable (players_passed_set_bidder w i) = totalCoastersOnTable w"
  "roundNum (players_passed_set_bidder w i) = roundNum w"
  "firstPlacement (players_passed_set_bidder w i) = firstPlacement w"
  "nextRoundStarter (players_passed_set_bidder w i) = nextRoundStarter w"
  "penaltyPlayer (players_passed_set_bidder w i) = penaltyPlayer w"
  "turnDeadline (players_passed_set_bidder w i) = turnDeadline w"
  "turnTimer (players_passed_set_bidder w i) = turnTimer w"
  "log (players_passed_set_bidder w i) = log w"
  "revealedCards (players_passed_set_bidder w i) = revealedCards w"
  "timers (players_passed_set_bidder w i) = timers w"
  "nextTimer (players_passed_set_bidder w i) = nextTimer w"
  "now (players_passed_set_bidder w i) = now w"
  "outbox (players_passed_set_bidder w i) = outbox w"
  "inRegistry (players_passed_set_bidder w i) = inRegistry w"
  by (simp_all add: players_passed_set_bidder_def)

section \<open>Turn scheduler: the timeout table\<close>

lemma schedOk_Nil [simp]: "schedOk [] n None"
  by (simp add: schedOk_def)

lemma schedOk_clear:
  "schedOk ts n tt \<Longrightarrow> tt = Some h \<Longrightarrow> schedOk (filter (\<lambda>t. handle t \<noteq> h) ts) n None"
  by (auto simp: schedOk_def distinct_map_filter)

lemma schedOk_add_other:
  "schedOk ts n tt \<Longrightarrow> \<not> isDeadline cb \<Longrightarrow>
   schedOk (ts @ [\<lparr>handle = n, due = d, callback = cb\<rparr>]) (Suc n) tt"
  by (fastforce simp: schedOk_def)

lemma schedOk_add_deadline:
  "schedOk ts n None \<Longrightarrow>
   schedOk (ts @ [\<lparr>handle = n, due = d, callback = Deadline cb\<rparr>]) (Suc n) (Some n)"
  by (fastforce simp: schedOk_def)

lemma find_handle_SomeD:
  "find (\<lambda>t. handle t = h) ts = Some t \<Longrightarrow> t \<in> set ts \<and> handle t = h"
  by (auto simp: find_Some_iff)

lemma schedOk_fire_deadline:
  "schedOk ts n tt \<Longrightarrow> t \<in> set ts \<Longrightarrow> isDeadline (callback t) \<Longrightarrow>
   schedOk (filter (\<lambda>u. handle u \<noteq> handle t) ts) n None"
  by (auto simp: schedOk_def distinct_map_filter)

lemma schedOk_fire_other:
  "schedOk ts n tt \<Longrightarrow> t \<in> set ts \<Longrightarrow> \<not> isDeadline (callback t) \<Longrightarrow>
   schedOk (filter (\<lambda>u. handle u \<noteq> handle t) ts) n tt"
  by (auto simp: schedOk_def distinct_map_filter)

lemma distinct_const_short:
  assumes "distinct xs" and "\<forall>x \<in> set xs. x = a"
  shows "length xs \<le> 1"
proof (cases xs)
  case Nil
  then show ?thesis by simp
next
  case (Cons x ys)
  show ?thesis
  proof (cases ys)
    case Nil
    with Cons show ?thesis by simp
  next
    case (Cons y zs)
    with \<open>xs = x # ys\<close> assms show ?thesis by auto
  qed
qed

lemma schedOk_deadlines:
  assumes "schedOk ts n tt"
  shows "length (filter (\<lambda>t. isDeadline (callback t)) ts) \<le> 1"
proof -
  let ?ds = "filter (\<lambda>t. isDeadline (callback t)) ts"
  from assms have d: "distinct (map handle ?ds)"
    by (simp add: schedOk_def distinct_map_filter)
  from assms have "\<forall>t \<in> set ?ds. tt = Some (handle t)"
    by (auto simp: schedOk_def)
  then have "\<forall>x \<in> set (map handle ?ds). x = the tt"
    by auto
  with d have "length (map handle ?ds) \<le> 1"
    by (rule distinct_const_short)
  then show ?thesis by simp
qed

text \<open>The scheduler primitives keep the table well formed.\<close>

lemma timersOk_clearTurnTimer: "timersOk w \<Longrightarrow> timersOk (clearTurnTimer w)"
  by (auto simp: timersOk_def clearTurnTimer_def clearTimeout_def schedOk_clear split: option.splits)

lemma turnTimer_clearTurnTimer [simp]: "turnTimer (clearTurnTimer w) = None"
  by (simp add: clearTurnTimer_def clearTimeout_def split: option.splits)

lemma timersOk_startTurnTimer: "timersOk w \<Longrightarrow> timersOk (startTurnTimer w s cb)"
proof -
  assume "timersOk w"
  then have "timersOk (clearTurnTimer w)" by (rule timersOk_clearTurnTimer)
  then have "schedOk (timers (clearTurnTimer w)) (nextTimer (clearTurnTimer w)) None"
    by (simp add: timersOk_def)
  then show ?thesis
    by (simp add: timersOk_def startTurnTimer_def setTimeout_def Let_def schedOk_add_deadline)
qed

lemma timersOk_setTimeout:
  "timersOk w \<Longrightarrow> \<not> isDeadline cb \<Longrightarrow> timersOk (setTimeout w cb ms)"
  by (simp add: timersOk_def setTimeout_def schedOk_add_other)

lemma timersOk_frame:
  "timers w' = timers w \<Longrightarrow> nextTimer w' = nextTimer w \<Longrightarrow> turnTimer w' = turnTimer w \<Longrightarrow>
   timersOk w' = timersOk w"
  by (simp add: timersOk_def)

lemma timersOk_addLog [simp]: "timersOk (addLog w m) = timersOk w"
  by (simp add: timersOk_def addLog_def Let_def)

lemma timersOk_set_player [simp]: "timersOk (set_player w i p) = timersOk w"
  by (simp add: timersOk_def set_player_def)

lemma timersOk_updates [simp]:
  "timersOk (w\<lparr>players := a1\<rparr>) = timersOk w"
  "timersOk (w\<lparr>hostId := a2\<rparr>) = timersOk w"
  "timersOk (w\<lparr>started := a3\<rparr>) = timersOk w"
  "timersOk (w\<lparr>phase := a4\<rparr>) = timersOk w"
  "timersOk (w\<lparr>currentPlayer := a5\<rparr>) = timersOk w"
  "timersOk (w\<lparr>currentBid := a6\<rparr>) = timersOk w"
  "timersOk (w\<lparr>highestBidder := a7\<rparr>) = timersOk w"
  "timersOk (w\<lparr>flipsRemaining := a8\<rparr>) = timersOk w"
  "timersOk (w\<lparr>totalCoastersOnTable := a9\<rparr>) = timersOk w"
  "timersOk (w\<lparr>roundNum := a10\<rparr>) = timersOk w"
  "timersOk (w\<lparr>firstPlacement := a11\<rparr>) = timersOk w"
  "timersOk (w\<lparr>nextRoundStarter := a12\<rparr>) = timersOk w"
  "timersOk (w\<lparr>penaltyPlayer := a13\<rparr>) = timersOk w"
  "timersOk (w\<lparr>turnDeadline := a14\<rparr>) = timersOk w"
  "timersOk (w\<lparr>log := a15\<rparr>) = timersOk w"
  "timersOk (w\<lparr>revealedCards := a16\<rparr>) = timersOk w"
  "timersOk (w\<lparr>now := a17\<rparr>) = timersOk w"
  "timersOk (w\<lparr>outbox := a18\<rparr>) = timersOk w"
  "timersOk (w\<lparr>inRegistry := a19\<rparr>) = timersOk w"
  by (simp_all add: timersOk_def)

lemmas timersOk_intros = timersOk_clearTurnTimer timersOk_startTurnTimer timersOk_setTimeout

lemma timersOk_gameOver: "timersOk w \<Longrightarrow> gameOver w i = Some w' \<Longrightarrow> timersOk w'"
  by (auto simp: gameOver_def Let_def timersOk_intros split: option.splits)

lemma timersOk_startRound: "timersOk w \<Longrightarrow> startRound w = Some w' \<Longrightarrow> timersOk w'"
  by (auto simp: startRound_def Let_def timersOk_intros split: option.splits if_splits bind_splits)

lemma timersOk_startGame: "timersOk w \<Longrightarrow> startGame w = Some w' \<Longrightarrow> timersOk w'"
  by (auto simp: startGame_def Let_def dest!: timersOk_startRound [rotated])

lemma timersOk_startFlipping: "timersOk w \<Longrightarrow> startFlipping w = Some w' \<Longrightarrow> timersOk w'"
  by (auto simp: startFlipping_def Let_def timersOk_intros split: option.splits)

lemma timersOk_checkBiddingEnd: "timersOk w \<Longrightarrow> checkBiddingEnd w = Some w' \<Longrightarrow> timersOk w'"
  by (auto simp: checkBiddingEnd_def Let_def split: if_splits dest!: timersOk_startFlipping [rotated])

lemma timersOk_players_passed_set_bidder [simp]:
  "timersOk (players_passed_set_bidder w i) = timersOk w"
  by (simp add: players_passed_set_bidder_def)

lemma timersOk_handleStartBid: "timersOk w \<Longrightarrow> handleStartBid w i a = Some w' \<Longrightarrow> timersOk w'"
  by (auto simp: handleStartBid_def Let_def startBidTimer_def timersOk_intros
           split: if_splits option.splits dest!: timersOk_checkBiddingEnd [rotated])

lemma timersOk_advancePlacing: "timersOk w \<Longrightarrow> advancePlacing w = Some w' \<Longrightarrow> timersOk w'"
  by (auto simp: advancePlacing_def Let_def timersOk_intros
           split: if_splits option.splits bind_splits)

lemma timersOk_handlePlace: "timersOk w \<Longrightarrow> handlePlace w i c = Some w' \<Longrightarrow> timersOk w'"
  by (auto simp: handlePlace_def Let_def split: if_splits option.splits
           dest!: timersOk_advancePlacing [rotated])

lemma timersOk_handleRaiseBid: "timersOk w \<Longrightarrow> handleRaiseBid w i a = Some w' \<Longrightarrow> timersOk w'"
  by (auto simp: handleRaiseBid_def Let_def startBidTimer_def timersOk_intros
           split: if_splits option.splits dest!: timersOk_checkBiddingEnd [rotated])

lemma timersOk_handlePass: "timersOk w \<Longrightarrow> handlePass w i = Some w' \<Longrightarrow> timersOk w'"
  by (auto simp: handlePass_def Let_def split: if_splits option.splits
           dest!: timersOk_checkBiddingEnd [rotated])

lemma timersOk_handleFlip: "timersOk w \<Longrightarrow> handleFlip w i t = Some w' \<Longrightarrow> timersOk w'"
  by (auto simp: handleFlip_def Let_def timersOk_intros split: if_splits option.splits)

lemma timersOk_challengeSuccess: "timersOk w \<Longrightarrow> challengeSuccess w i = Some w' \<Longrightarrow> timersOk w'"
  by (auto simp: challengeSuccess_def Let_def timersOk_intros split: if_splits option.splits
           dest!: timersOk_gameOver [rotated])

lemma doCardRemoval_alt:
  "doCardRemoval w rnd loserIdx chosenIdx =
     (case player_at w loserIdx of
        None \<Rightarrow> None
      | Some p \<Rightarrow>
          (let w3 = afterRemoval w rnd loserIdx chosenIdx p
           in if length (filter (\<lambda>pl. \<not> eliminated pl) (players w3)) \<le> 1
              then gameOver w3 (findIndex (\<lambda>pl. \<not> eliminated pl) (players w3))
              else Some (setTimeout (w3\<lparr>outbox := outbox w3 @ stateMsgs w3\<rparr>) StartRoundCb 2000)))"
proof (cases "player_at w loserIdx")
  case None
  then show ?thesis by (simp only: doCardRemoval_def option.case)
next
  case (Some p)
  then show ?thesis
    by (simp only: doCardRemoval_def afterRemoval_def option.case Let_def
                   broadcastState_Some bind.bind_lunit)
qed

lemma afterRemoval_frame [simp]:
  "timers (afterRemoval w r l c p) = timers w"
  "nextTimer (afterRemoval w r l c p) = nextTimer w"
  "turnTimer (afterRemoval w r l c p) = turnTimer w"
  "phase (afterRemoval w r l c p) = phase w"
  "started (afterRemoval w r l c p) = started w"
  "currentPlayer (afterRemoval w r l c p) = currentPlayer w"
  "currentBid (afterRemoval w r l c p) = currentBid w"
  "highestBidder (afterRemoval w r l c p) = highestBidder w"
  "flipsRemaining (afterRemoval w r l c p) = flipsRemaining w"
  "totalCoastersOnTable (afterRemoval w r l c p) = totalCoastersOnTable w"
  "firstPlacement (afterRemoval w r l c p) = firstPlacement w"
  "nextRoundStarter (afterRemoval w r l c p) = nextRoundStarter w"
  "revealedCards (afterRemoval w r l c p) = revealedCards w"
  "penaltyPlayer (afterRemoval w r l c p) = -1"
  "outbox (afterRemoval w r l c p) = outbox w"
  "inRegistry (afterRemoval w r l c p) = inRegistry w"
  by (simp_all add: afterRemoval_def Let_def addLog_def set_player_def)

lemma afterRemoval_players:
  "player_at w l = Some p \<Longrightarrow>
   players (afterRemoval w r l c p) = (players w)[nat l := penalised p r c]"
  by (auto simp: afterRemoval_def penalised_def Let_def addLog_def set_player_def player_at_def
           split: if_splits)

lemma timersOk_doCardRemoval: "timersOk w \<Longrightarrow> doCardRemoval w r i c = Some w' \<Longrightarrow> timersOk w'"
proof -
  assume ok: "timersOk w" and r: "doCardRemoval w r i c = Some w'"
  from r obtain p where p: "player_at w i = Some p"
    by (auto simp: doCardRemoval_alt split: option.splits)
  have ok3: "timersOk (afterRemoval w r i c p)"
    using ok by (simp add: timersOk_def)
  from r p ok3 show ?thesis
    by (auto simp: doCardRemoval_alt Let_def timersOk_intros split: if_splits
             dest!: timersOk_gameOver [rotated])
qed

lemma timersOk_penalize: "timersOk w \<Longrightarrow> penalize w r i s = Some w' \<Longrightarrow> timersOk w'"
  by (auto simp: penalize_def Let_def split: if_splits option.splits
           dest!: timersOk_doCardRemoval [rotated])

lemma timersOk_handlePenaltyDiscard:
  "timersOk w \<Longrightarrow> handlePenaltyDiscard w i c = Some w' \<Longrightarrow> timersOk w'"
  by (auto simp: handlePenaltyDiscard_def split: if_splits option.splits
           dest!: timersOk_doCardRemoval [rotated])

lemma timersOk_autoPass [simp]: "timersOk (autoPass w) = timersOk w"
  by (simp add: timersOk_def autoPass_def Let_def)

lemma timersOk_runDeadlineCallback:
  "timersOk w \<Longrightarrow> runDeadlineCallback w cb = Some w' \<Longrightarrow> timersOk w'"
  by (cases cb)
     (auto split: if_splits option.splits
           dest: timersOk_handlePlace timersOk_handleStartBid timersOk_checkBiddingEnd [rotated])

lemma timersOk_fire: "timersOk w \<Longrightarrow> fire w h rnd = Some w' \<Longrightarrow> timersOk w'"
proof -
  assume ok: "timersOk w" and f: "fire w h rnd = Some w'"
  show ?thesis
  proof (cases "find (\<lambda>t. handle t = h) (timers w)")
    case None
    with f ok show ?thesis by (simp add: fire_def)
  next
    case (Some t)
    then have t: "t \<in> set (timers w)" "handle t = h" by (auto dest: find_handle_SomeD)
    let ?w1 = "w\<lparr>timers := filter (\<lambda>t. handle t \<noteq> h) (timers w)\<rparr>"
    show ?thesis
    proof (cases "now w < due t")
      case True
      with f ok Some show ?thesis by (simp add: fire_def)
    next
      case False
      with f Some have run: "runCallback ?w1 rnd (callback t) = Some w'"
        by (simp add: fire_def)
      show ?thesis
      proof (cases "callback t")
        case (Deadline cb)
        with ok t have "schedOk (filter (\<lambda>u. handle u \<noteq> handle t) (timers w)) (nextTimer w) None"
          unfolding timersOk_def by (intro schedOk_fire_deadline) auto
        with t have "timersOk (?w1\<lparr>turnTimer := None, turnDeadline := 0\<rparr>)"
          by (simp add: timersOk_def)
        with run Deadline show ?thesis
          by (auto dest: timersOk_runDeadlineCallback [rotated])
      next
        case (ForcedBid n)
        with ok t have "schedOk (filter (\<lambda>u. handle u \<noteq> handle t) (timers w)) (nextTimer w) (turnTimer w)"
          unfolding timersOk_def by (intro schedOk_fire_other) auto
        with t have "timersOk ?w1" by (simp add: timersOk_def)
        with run ForcedBid show ?thesis
          by (auto split: if_splits dest: timersOk_handleStartBid)
      next
        case (PenalizeCb a b)
        with ok t have "schedOk (filter (\<lambda>u. handle u \<noteq> handle t) (timers w)) (nextTimer w) (turnTimer w)"
          unfolding timersOk_def by (intro schedOk_fire_other) auto
        with t have "timersOk ?w1" by (simp add: timersOk_def)
        with run PenalizeCb show ?thesis
          by (auto dest: timersOk_penalize)
      next
        case (ChallengeSuccessCb a)
        with ok t have "schedOk (filter (\<lambda>u. handle u \<noteq> handle t) (timers w)) (nextTimer w) (turnTimer w)"
          unfolding timersOk_def by (intro schedOk_fire_other) auto
        with t have "timersOk ?w1" by (simp add: timersOk_def)
        with run ChallengeSuccessCb show ?thesis
          by (auto dest: timersOk_challengeSuccess)
      next
        case StartRoundCb
        with ok t have "schedOk (filter (\<lambda>u. handle u \<noteq> handle t) (timers w)) (nextTimer w) (turnTimer w)"
          unfolding timersOk_def by (intro schedOk_fire_other) auto
        with t have "timersOk ?w1" by (simp add: timersOk_def)
        with run StartRoundCb show ?thesis
          by (auto dest: timersOk_startRound)
      qed
    qed
  qed
qed

lemma timersOk_joinFound:
  "timersOk w \<Longrightarrow> joinFound w c sid nm = Some (reply, w') \<Longrightarrow> timersOk w'"
  by (auto simp: joinFound_def Let_def split: if_splits option.splits)

lemma timersOk_dispatch: "timersOk w \<Longrightarrow> dispatch e w = Some w' \<Longrightarrow> timersOk w'"
proof (cases e)
  case (JoinRoom sid dname)
  assume "timersOk w" "dispatch e w = Some w'"
  with JoinRoom show ?thesis
    by (auto split: if_splits dest: timersOk_joinFound)
next
  case (StartGame sid)
  assume "timersOk w" "dispatch e w = Some w'"
  with StartGame show ?thesis
    by (auto simp: on_startGame_def split: if_splits dest: timersOk_startGame)
next
  case (PlaceCard sid i)
  assume "timersOk w" "dispatch e w = Some w'"
  with PlaceCard show ?thesis
    by (auto simp: on_placeCard_def Let_def split: if_splits dest: timersOk_handlePlace)
next
  case (StartBid sid a)
  assume "timersOk w" "dispatch e w = Some w'"
  with StartBid show ?thesis
    by (auto simp: on_startBid_def Let_def split: if_splits dest: timersOk_handleStartBid)
next
  case (RaiseBid sid a)
  assume "timersOk w" "dispatch e w = Some w'"
  with RaiseBid show ?thesis
    by (auto simp: on_raiseBid_def Let_def split: if_splits dest: timersOk_handleRaiseBid)
next
  case (Pass sid)
  assume "timersOk w" "dispatch e w = Some w'"
  with Pass show ?thesis
    by (auto simp: on_pass_def Let_def split: if_splits dest: timersOk_handlePass)
next
  case (FlipCoaster sid t)
  assume "timersOk w" "dispatch e w = Some w'"
  with FlipCoaster show ?thesis
    by (auto simp: on_flipCoaster_def Let_def split: if_splits dest: timersOk_handleFlip)
next
  case (PenaltyDiscard sid i)
  assume "timersOk w" "dispatch e w = Some w'"
  with PenaltyDiscard show ?thesis
    by (auto simp: on_penaltyDiscard_def Let_def split: if_splits dest: timersOk_handlePenaltyDiscard)
next
  case (ChatMessage sid msg)
  assume "timersOk w" "dispatch e w = Some w'"
  with ChatMessage show ?thesis
    by (auto simp: on_chatMessage_def Let_def split: if_splits option.splits)
next
  case (DougLose sid)
  assume "timersOk w" "dispatch e w = Some w'"
  with DougLose show ?thesis
    by (auto simp: on_dougLose_def Let_def split: if_splits option.splits)
next
  case (PlayAgain sid)
  assume "timersOk w" "dispatch e w = Some w'"
  with PlayAgain show ?thesis
    by (auto simp: on_playAgain_def Let_def split: if_splits)
next
  case (Disconnect sid)
  assume "timersOk w" "dispatch e w = Some w'"
  with Disconnect show ?thesis
    by (auto simp: on_disconnect_def Let_def split: if_splits option.splits)
next
  case (Fire h rnd)
  assume "timersOk w" "dispatch e w = Some w'"
  with Fire show ?thesis
    by (auto dest: timersOk_fire)
next
  case (Tick d)
  assume "timersOk w" "dispatch e w = Some w'"
  with Tick show ?thesis by auto
qed

lemma timersOk_step: "timersOk w \<Longrightarrow> step e w = Some w' \<Longrightarrow> timersOk w'"
  unfolding step_def using timersOk_dispatch [of "w\<lparr>outbox := []\<rparr>" e w'] by simp

lemma timersOk_created: "on_createRoom c sid nm t = Some w \<Longrightarrow> timersOk w"
  by (auto simp: on_createRoom_def Let_def registered_def newRoom_def timersOk_def room.defs world.defs)

lemma reachable_timersOk: "reachable w \<Longrightarrow> timersOk w"
  by (induction rule: reachable.induct) (auto intro: timersOk_created timersOk_step)

lemma exec_reachable: "reachable w \<Longrightarrow> exec es w = Some w' \<Longrightarrow> reachable w'"
proof (induction es arbitrary: w)
  case Nil
  then show ?case by simp
next
  case (Cons e es)
  then show ?case
    by (auto split: option.splits intro: reachable.stepped)
qed

lemma demoLobby_created: "on_createRoom ''ABCD'' ''s1'' ''Ann'' 0 = Some demoLobby"
  by (simp add: demoLobby_def on_createRoom_def Let_def)

lemma reachable_demoLobby: "reachable demoLobby"
  using demoLobby_created by (rule reachable.created)

lemma stale_callback_noop: "\<not> justified w cb \<Longrightarrow> runDeadlineCallback w cb = Some w"
  by (cases cb) auto

lemma deadlines_after_startTurnTimer:
  assumes "timersOk w"
  shows "filter (\<lambda>t. isDeadline (callback t)) (timers (startTurnTimer w s cb)) =
           [\<lparr>handle = nextTimer w, due = now w + s * 1000, callback = Deadline cb\<rparr>]"
proof (cases "turnTimer w")
  case None
  with assms have "\<forall>t \<in> set (timers w). \<not> isDeadline (callback t)"
    by (auto simp: timersOk_def schedOk_def)
  then have "filter (\<lambda>t. isDeadline (callback t)) (timers w) = []"
    by (simp add: filter_empty_conv)
  with None show ?thesis
    by (simp add: startTurnTimer_def clearTurnTimer_def setTimeout_def Let_def)
next
  case (Some h)
  with assms have "\<forall>t \<in> set (timers w). isDeadline (callback t) \<longrightarrow> handle t = h"
    by (auto simp: timersOk_def schedOk_def)
  then have "filter (\<lambda>t. isDeadline (callback t)) (filter (\<lambda>t. handle t \<noteq> h) (timers w)) = []"
    by (auto simp: filter_empty_conv)
  with Some show ?thesis
    by (simp add: startTurnTimer_def clearTurnTimer_def clearTimeout_def setTimeout_def Let_def)
qed

section \<open>Handlers as transitions of the core\<close>

lemma seatOf_simps [simp]:
  "s_cards (seatOf p) = cards p" "s_hand (seatOf p) = hand p" "s_stack (seatOf p) = stack p"
  "s_elim (seatOf p) = eliminated p" "s_passed (seatOf p) = passed p"
  by (simp_all add: seatOf_def)

lemma seatOf_updates [simp]:
  "seatOf (p\<lparr>ident := a\<rparr>) = seatOf p"
  "seatOf (p\<lparr>name := b\<rparr>) = seatOf p"
  "seatOf (p\<lparr>wins := c\<rparr>) = seatOf p"
  "seatOf (p\<lparr>connected := d\<rparr>) = seatOf p"
  "seatOf (p\<lparr>colorIndex := e\<rparr>) = seatOf p"
  "seatOf (p\<lparr>lastChatTime := f\<rparr>) = seatOf p"
  "seatOf (p\<lparr>cards := cs\<rparr>) = (seatOf p)\<lparr>s_cards := cs\<rparr>"
  "seatOf (p\<lparr>hand := hs\<rparr>) = (seatOf p)\<lparr>s_hand := hs\<rparr>"
  "seatOf (p\<lparr>stack := st\<rparr>) = (seatOf p)\<lparr>s_stack := st\<rparr>"
  "seatOf (p\<lparr>eliminated := el\<rparr>) = (seatOf p)\<lparr>s_elim := el\<rparr>"
  "seatOf (p\<lparr>passed := pa\<rparr>) = (seatOf p)\<lparr>s_passed := pa\<rparr>"
  by (simp_all add: seatOf_def)

lemma countOnTable_seats: "countOnTable w = tableCount (map seatOf (players w))"
  by (simp add: countOnTable_def tableCount_def comp_def)

lemma player_at_SomeD:
  "player_at w i = Some p \<Longrightarrow> 0 \<le> i \<and> nat i < length (players w) \<and> players w ! nat i = p"
  by (auto simp: player_at_def split: if_splits)

lemma player_at_seat:
  "player_at w i = Some p \<Longrightarrow> map seatOf (players w) ! nat i = seatOf p"
  by (auto dest: player_at_SomeD)

lemma players_set_player [simp]: "players (set_player w i p) = (players w)[nat i := p]"
  by (simp add: set_player_def)

lemma timers_setTimeout [simp]:
  "timers (setTimeout w cb ms) = timers w @ [\<lparr>handle = nextTimer w, due = now w + ms, callback = cb\<rparr>]"
  by (simp add: setTimeout_def)

lemma pending_filter_handle:
  "\<forall>t \<in> set ts. handle t = h \<longrightarrow> \<not> isResolution (callback t) \<Longrightarrow>
   filter isResolution (map callback (filter (\<lambda>t. handle t \<noteq> h) ts))
   = filter isResolution (map callback ts)"
  by (induction ts) auto

lemma isDeadline_not_isResolution: "isDeadline cb \<Longrightarrow> \<not> isResolution cb"
  by (cases cb) auto

lemma pending_clearTurnTimer:
  assumes "timersOk w"
  shows "filter isResolution (map callback (timers (clearTurnTimer w)))
         = filter isResolution (map callback (timers w))"
proof (cases "turnTimer w")
  case None
  then show ?thesis by (simp add: clearTurnTimer_def)
next
  case (Some h)
  from assms Some have "\<forall>t \<in> set (timers w). handle t = h \<longrightarrow> \<not> isResolution (callback t)"
    by (auto simp: timersOk_def schedOk_def isDeadline_not_isResolution)
  then show ?thesis using Some
    by (simp add: clearTurnTimer_def clearTimeout_def pending_filter_handle)
qed

lemma pending_startTurnTimer:
  assumes "timersOk w"
  shows "filter isResolution (map callback (timers (startTurnTimer w s cb)))
         = filter isResolution (map callback (timers w))"
  using pending_clearTurnTimer [OF assms]
  by (simp add: startTurnTimer_def Let_def)

lemma gameOver_core:
  assumes "timersOk w" and "gameOver w i = Some w'"
  shows "coreOf w' = (coreOf w)\<lparr>c_phase := GameOver\<rparr>"
  using assms
  by (auto simp: gameOver_def Let_def coreOf_def pending_clearTurnTimer split: option.splits)

lemma filter_enumerate_Nil:
  "filter (\<lambda>(i, x). P i x) (enumerate 0 xs) = [] \<longleftrightarrow> (\<forall>i < length xs. \<not> P i (xs ! i))"
  by (auto simp: filter_empty_conv in_set_enumerate_eq)

lemma noOtherBidder_coreOf:
  "noOtherBidder (coreOf w) \<longleftrightarrow>
     length (filter (\<lambda>(i, p). \<not> eliminated p \<and> \<not> passed p \<and> int i \<noteq> highestBidder w)
                    (enumerate 0 (players w))) = 0"
  by (auto simp: noOtherBidder_def coreOf_def filter_enumerate_Nil)

lemma startFlipping_core:
  assumes "timersOk w" and "startFlipping w = Some w'"
  shows "coreOf w' = (coreOf w)\<lparr>c_phase := Flipping, c_current := c_bidder (coreOf w), c_reveals := []\<rparr>"
  using assms
  by (auto simp: startFlipping_def Let_def coreOf_def pending_clearTurnTimer split: option.splits)

lemma checkBiddingEnd_core:
  assumes ok: "timersOk w" and r: "checkBiddingEnd w = Some w'"
  shows "coreOf w' = a_check (coreOf w)"
proof -
  let ?w1 = "w\<lparr>totalCoastersOnTable := countOnTable w\<rparr>"
  have c1: "coreOf ?w1 = (coreOf w)\<lparr>c_total := tableCount (c_seats (coreOf w))\<rparr>"
    by (simp add: coreOf_def countOnTable_seats)
  have n1: "noOtherBidder (coreOf w) \<longleftrightarrow>
     length (filter (\<lambda>(i, p). \<not> eliminated p \<and> \<not> passed p \<and> int i \<noteq> highestBidder ?w1)
                    (enumerate 0 (players ?w1))) = 0"
    by (simp add: noOtherBidder_coreOf)
  show ?thesis
  proof (cases "noOtherBidder (coreOf w) \<or> currentBid w \<ge> countOnTable w")
    case True
    with r n1 have "startFlipping ?w1 = Some w'"
      by (auto simp: checkBiddingEnd_def Let_def)
    with ok have "coreOf w' = (coreOf ?w1)\<lparr>c_phase := Flipping, c_current := c_bidder (coreOf ?w1), c_reveals := []\<rparr>"
      by (intro startFlipping_core) simp_all
    with True c1 show ?thesis
      by (auto simp: a_check_def Let_def coreOf_def countOnTable_seats)
  next
    case False
    with r n1 have "w' = ?w1\<lparr>outbox := outbox ?w1 @ stateMsgs ?w1\<rparr>"
      by (auto simp: checkBiddingEnd_def Let_def)
    then have "coreOf w' = coreOf ?w1" by (simp add: coreOf_def)
    with False c1 show ?thesis
      by (auto simp: a_check_def Let_def coreOf_def countOnTable_seats)
  qed
qed

lemma passed_reset_seats:
  "map seatOf (map (\<lambda>(i, p). if int i = b then p\<lparr>passed := False\<rparr> else p)
                 (enumerate 0 (map (\<lambda>pl. pl\<lparr>passed := False\<rparr>) ps)))
   = map (\<lambda>s. s\<lparr>s_passed := False\<rparr>) (map seatOf ps)"
  by (rule nth_equalityI) (auto simp: nth_enumerate_eq)

lemma handleStartBid_core:
  assumes ok: "timersOk w" and r: "handleStartBid w i amount = Some w'"
    and g: "phase w = Placing" "currentPlayer w = i" "\<not> firstPlacement w"
  shows "coreOf w' = a_check (a_open (coreOf w) i amount)"
proof -
  from r g obtain p where p: "player_at w i = Some p"
    by (auto simp: handleStartBid_def split: option.splits)
  define w6 where "w6 =
    (addLog (players_passed_set_bidder
      (w\<lparr>totalCoastersOnTable := countOnTable w, phase := Bidding,
         currentBid := max 1 (min (if amount = 0 then 1 else amount) (countOnTable w)),
         highestBidder := i,
         players := map (\<lambda>pl. pl\<lparr>passed := False\<rparr>) (players w)\<rparr>) i)
      (LogOpened (name p) (max 1 (min (if amount = 0 then 1 else amount) (countOnTable w)))))
    \<lparr>currentPlayer := -1\<rparr>"
  from r g p have r': "checkBiddingEnd (startBidTimer w6) = Some w'"
    by (simp add: handleStartBid_def Let_def w6_def)
  have ok6: "timersOk w6" using ok by (simp add: w6_def)
  then have ok7: "timersOk (startBidTimer w6)"
    by (simp add: startBidTimer_def timersOk_startTurnTimer)
  have s6: "map seatOf (players w6) = map (\<lambda>s. s\<lparr>s_passed := False\<rparr>) (map seatOf (players w))"
    unfolding w6_def by (rule nth_equalityI) (auto simp: players_passed_set_bidder_def nth_enumerate_eq)
  have c6: "coreOf w6 = a_open (coreOf w) i amount"
    unfolding coreOf_def a_open_def s6
    by (simp add: w6_def players_passed_set_bidder_def countOnTable_seats)
  have "coreOf (startBidTimer w6) = coreOf w6"
    using ok6 by (simp add: coreOf_def startBidTimer_def pending_startTurnTimer)
  with checkBiddingEnd_core [OF ok7 r'] c6 show ?thesis by simp
qed

lemma handleRaiseBid_core:
  assumes ok: "timersOk w" and r: "handleRaiseBid w i amount = Some w'"
    and g: "phase w = Bidding" "player_at w i = Some p" "\<not> passed p" "\<not> eliminated p"
       "i \<noteq> highestBidder w" "currentBid w < amount" "amount \<le> countOnTable w"
  shows "coreOf w' = a_check (a_raise (coreOf w) i amount)"
proof -
  define w3 where "w3 =
     addLog (w\<lparr>totalCoastersOnTable := countOnTable w, currentBid := amount, highestBidder := i\<rparr>)
            (LogBid (name p) amount)"
  from r g have r': "checkBiddingEnd (startBidTimer w3) = Some w'"
    by (simp add: handleRaiseBid_def Let_def w3_def)
  have ok3: "timersOk w3" using ok by (simp add: w3_def)
  then have ok4: "timersOk (startBidTimer w3)"
    by (simp add: startBidTimer_def timersOk_startTurnTimer)
  have c3: "coreOf w3 = a_raise (coreOf w) i amount"
    by (simp add: w3_def coreOf_def a_raise_def countOnTable_seats)
  have "coreOf (startBidTimer w3) = coreOf w3"
    using ok3 by (simp add: coreOf_def startBidTimer_def pending_startTurnTimer)
  with checkBiddingEnd_core [OF ok4 r'] c3 show ?thesis by simp
qed

lemma handleRaiseBid_rejected:
  assumes "player_at w i = Some p"
    and "\<not> (phase w = Bidding \<and> \<not> passed p \<and> \<not> eliminated p \<and> i \<noteq> highestBidder w \<and>
            currentBid w < amount \<and> amount \<le> countOnTable w)"
  shows "handleRaiseBid w i amount = Some w \<or>
         handleRaiseBid w i amount = Some (w\<lparr>totalCoastersOnTable := countOnTable w\<rparr>)"
  using assms by (auto simp: handleRaiseBid_def Let_def)

lemma handlePass_core:
  assumes ok: "timersOk w" and r: "handlePass w i = Some w'"
    and g: "phase w = Bidding" "player_at w i = Some p" "\<not> passed p" "\<not> eliminated p"
       "i \<noteq> highestBidder w"
  shows "coreOf w' = a_check (a_pass (coreOf w) (nat i))"
proof -
  define w2 where "w2 = addLog (set_player w i (p\<lparr>passed := True\<rparr>)) (LogPassed (name p))"
  from r g have r': "checkBiddingEnd w2 = Some w'"
    by (simp add: handlePass_def Let_def w2_def)
  have ok2: "timersOk w2" using ok by (simp add: w2_def)
  have c2: "coreOf w2 = a_pass (coreOf w) (nat i)"
    using player_at_seat [OF g(2)]
    by (simp add: w2_def coreOf_def a_pass_def map_update)
  with checkBiddingEnd_core [OF ok2 r'] show ?thesis by simp
qed

lemma autoPass_core: "coreOf (autoPass w) = a_autoPass (coreOf w)"
proof -
  have "map seatOf (map (\<lambda>(i, p). if \<not> eliminated p \<and> \<not> passed p \<and> int i \<noteq> highestBidder w
                                 then p\<lparr>passed := True\<rparr> else p)
                      (enumerate 0 (players w)))
        = map (\<lambda>(i, s). if \<not> s_elim s \<and> \<not> s_passed s \<and> int i \<noteq> highestBidder w
                                 then s\<lparr>s_passed := True\<rparr> else s)
                        (enumerate 0 (map seatOf (players w)))"
    by (rule nth_equalityI) (auto simp: nth_enumerate_eq)
  then show ?thesis
    by (simp add: coreOf_def a_autoPass_def autoPass_def Let_def)
qed

lemma handleFlip_core:
  assumes ok: "timersOk w" and r: "handleFlip w f t = Some w'" and a: "flipAllowed w f t"
  shows "coreOf w' =
           (if last (s_stack (c_seats (coreOf w) ! nat t)) = Skull
            then (a_flipped (coreOf w) (nat t))\<lparr>c_phase := FlipResult,
                    c_pending := c_pending (coreOf w) @ [PenalizeCb f t]\<rparr>
            else if flipsRemaining w - 1 \<le> 0
            then (a_flipped (coreOf w) (nat t))\<lparr>c_phase := FlipResult,
                    c_pending := c_pending (coreOf w) @ [ChallengeSuccessCb f]\<rparr>
            else a_flipped (coreOf w) (nat t))"
proof -
  from a obtain target where t: "player_at w t = Some target"
    by (auto simp: flipAllowed_def split: option.splits)
  from r a t obtain flipper where f: "player_at w f = Some flipper"
    by (auto simp: handleFlip_def flipAllowed_def split: option.splits if_splits)
  from a t f have c: "phase w = Flipping" "f = highestBidder w" "currentPlayer w = f"
    "0 < flipsRemaining w" "\<not> eliminated target" "stack target \<noteq> []"
    "t = f \<or> stack flipper = []"
    by (auto simp: flipAllowed_def)
  define w4 where "w4 =
     (set_player w t (target\<lparr>stack := butlast (stack target)\<rparr>))
       \<lparr>totalCoastersOnTable := countOnTable (set_player w t (target\<lparr>stack := butlast (stack target)\<rparr>)),
        flipsRemaining := flipsRemaining w - 1,
        revealedCards := revealedCards w @
           [\<lparr>rc_playerIndex = t, rc_card = last (stack target), rc_playerName = name target\<rparr>]\<rparr>"
  have c4: "coreOf w4 = a_flipped (coreOf w) (nat t)"
    using player_at_seat [OF t] player_at_SomeD [OF t]
    by (simp add: w4_def coreOf_def a_flipped_def Let_def countOnTable_seats map_update)
  have st: "s_stack (c_seats (coreOf w) ! nat t) = stack target"
    using player_at_seat [OF t] by (simp add: coreOf_def)
  from r c t f have
    "w' = (if last (stack target) = Skull
           then setTimeout
                  ((addLog (w4\<lparr>phase := FlipResult\<rparr>) (LogSkull (name flipper) (name target)))
                     \<lparr>outbox := outbox w4 @
                        stateMsgs (addLog (w4\<lparr>phase := FlipResult\<rparr>) (LogSkull (name flipper) (name target)))\<rparr>)
                  (PenalizeCb f t) 1500
           else if flipsRemaining w - 1 \<le> 0
           then setTimeout
                  ((addLog w4 (LogRose (name flipper) (name target)))
                     \<lparr>phase := FlipResult,
                      outbox := outbox w4 @
                        stateMsgs ((addLog w4 (LogRose (name flipper) (name target)))\<lparr>phase := FlipResult\<rparr>)\<rparr>)
                  (ChallengeSuccessCb f) 1200
           else (addLog w4 (LogRose (name flipper) (name target)))
                     \<lparr>outbox := outbox w4 @ stateMsgs (addLog w4 (LogRose (name flipper) (name target)))\<rparr>)"
    by (auto simp: handleFlip_def Let_def w4_def)
  then have "coreOf w' =
           (if last (stack target) = Skull
            then (coreOf w4)\<lparr>c_phase := FlipResult,
                    c_pending := c_pending (coreOf w4) @ [PenalizeCb f t]\<rparr>
            else if flipsRemaining w - 1 \<le> 0
            then (coreOf w4)\<lparr>c_phase := FlipResult,
                    c_pending := c_pending (coreOf w4) @ [ChallengeSuccessCb f]\<rparr>
            else coreOf w4)"
    by (simp add: coreOf_def)
  moreover have "c_pending (coreOf w4) = c_pending (coreOf w)"
    by (simp add: coreOf_def w4_def)
  ultimately show ?thesis by (simp add: c4 st)
qed

lemma challengeSuccess_core:
  assumes ok: "timersOk w" and r: "challengeSuccess w i = Some w'"
  shows "coreOf w' = (coreOf w)\<lparr>c_phase := GameOver\<rparr> \<or>
         coreOf w' = (coreOf w)\<lparr>c_pending := c_pending (coreOf w) @ [StartRoundCb]\<rparr>"
proof -
  from r obtain p where p: "player_at w i = Some p"
    by (auto simp: challengeSuccess_def split: option.splits)
  define w3 where "w3 =
     addLog ((set_player w i (p\<lparr>wins := wins p + 1\<rparr>))\<lparr>nextRoundStarter := i\<rparr>)
            (LogWinsPoint (name p) (wins p + 1))"
  have c3: "coreOf w3 = coreOf w"
    using player_at_SomeD [OF p]
    by (simp add: w3_def coreOf_def map_update list_update_same_conv)
  have ok3: "timersOk w3" using ok by (simp add: w3_def)
  show ?thesis
  proof (cases "wins p + 1 \<ge> 2")
    case True
    with r p have "gameOver w3 i = Some w'"
      by (simp add: challengeSuccess_def Let_def w3_def)
    from gameOver_core [OF ok3 this] c3 show ?thesis by simp
  next
    case False
    with r p have "w' = setTimeout (w3\<lparr>outbox := outbox w3 @ stateMsgs w3\<rparr>) StartRoundCb 2000"
      by (simp add: challengeSuccess_def Let_def w3_def)
    then have "coreOf w' = (coreOf w3)\<lparr>c_pending := c_pending (coreOf w3) @ [StartRoundCb]\<rparr>"
      by (simp add: coreOf_def)
    with c3 show ?thesis by simp
  qed
qed

lemma seatOf_penalised: "seatOf (penalised p r c) = penalisedSeat (seatOf p) r c"
proof -
  define k where "k = (if c \<ge> 0 \<and> c < int (length (cards p)) then nat c else r mod length (cards p))"
  define cs where "cs = take k (cards p) @ drop (k + 1) (cards p)"
  have 1: "penalised p r c =
      (let p1 = (if length (cards p) > 0 then p\<lparr>cards := cs\<rparr> else p)
       in if length (cards p1) = 0 then p1\<lparr>eliminated := True, hand := [], stack := []\<rparr> else p1)"
    by (simp only: penalised_def Let_def k_def cs_def)
  have 2: "penalisedSeat (seatOf p) r c =
      (let s1 = (if length (cards p) > 0 then (seatOf p)\<lparr>s_cards := cs\<rparr> else seatOf p)
       in if length (s_cards s1) = 0 then s1\<lparr>s_elim := True, s_hand := [], s_stack := []\<rparr> else s1)"
    by (simp only: penalisedSeat_def Let_def k_def cs_def seatOf_simps)
  show ?thesis
    unfolding 1 2 Let_def
    by (cases "cards p = []"; cases "cs = []") simp_all
qed

lemma afterRemoval_core:
  assumes "player_at w l = Some p"
  shows "coreOf (afterRemoval w r l c p) =
           (coreOf w)\<lparr>c_seats := (c_seats (coreOf w))[nat l := penalisedSeat (c_seats (coreOf w) ! nat l) r c],
                      c_penalty := -1\<rparr>"
  using player_at_seat [OF assms]
  by (simp add: coreOf_def afterRemoval_players [OF assms] map_update seatOf_penalised)

lemma timersOk_afterRemoval [simp]: "timersOk (afterRemoval w r l c p) = timersOk w"
  by (simp add: timersOk_def)

lemma doCardRemoval_core:
  assumes ok: "timersOk w" and r: "doCardRemoval w rnd l c = Some w'"
  shows "coreOf w' = a_removal (coreOf w) (nat l) rnd c"
proof -
  from r obtain p where p: "player_at w l = Some p"
    by (auto simp: doCardRemoval_alt split: option.splits)
  let ?w3 = "afterRemoval w rnd l c p"
  have c3: "coreOf ?w3 =
           (coreOf w)\<lparr>c_seats := (c_seats (coreOf w))[nat l := penalisedSeat (c_seats (coreOf w) ! nat l) rnd c],
                      c_penalty := -1\<rparr>"
    by (rule afterRemoval_core [OF p])
  have al: "length (filter (\<lambda>pl. \<not> eliminated pl) (players ?w3))
            = length (filter (\<lambda>s. \<not> s_elim s) (c_seats (coreOf ?w3)))"
    by (simp add: coreOf_def filter_map comp_def)
  show ?thesis
  proof (cases "length (filter (\<lambda>pl. \<not> eliminated pl) (players ?w3)) \<le> 1")
    case True
    with r p have "gameOver ?w3 (findIndex (\<lambda>pl. \<not> eliminated pl) (players ?w3)) = Some w'"
      by (simp add: doCardRemoval_alt Let_def)
    with ok have "coreOf w' = (coreOf ?w3)\<lparr>c_phase := GameOver\<rparr>"
      by (intro gameOver_core) simp_all
    with True al show ?thesis
      unfolding a_removal_def Let_def c3 by simp
  next
    case False
    with r p have "w' = setTimeout (?w3\<lparr>outbox := outbox ?w3 @ stateMsgs ?w3\<rparr>) StartRoundCb 2000"
      by (simp add: doCardRemoval_alt Let_def)
    then have "coreOf w' = (coreOf ?w3)\<lparr>c_pending := c_pending (coreOf ?w3) @ [StartRoundCb]\<rparr>"
      by (simp add: coreOf_def)
    with False al show ?thesis
      unfolding a_removal_def Let_def c3 by simp
  qed
qed

lemma penalize_core:
  assumes ok: "timersOk w" and r: "penalize w rnd l s = Some w'"
  shows "coreOf w' = a_penalize (coreOf w) rnd l s"
proof -
  let ?w1 = "w\<lparr>nextRoundStarter := (if l = s then l else s)\<rparr>"
  have c1: "coreOf ?w1 = coreOf w" by (simp add: coreOf_def)
  have ok1: "timersOk ?w1" using ok by simp
  show ?thesis
  proof (cases "l = s")
    case False
    with r have "doCardRemoval ?w1 rnd l (-1) = Some w'"
      by (simp add: penalize_def Let_def)
    from doCardRemoval_core [OF ok1 this] c1 False show ?thesis
      by (simp add: a_penalize_def)
  next
    case True
    have pa: "player_at ?w1 l = player_at w l" by (simp add: player_at_def)
    with r True obtain p where p: "player_at w l = Some p"
      by (cases "player_at w l") (auto simp: penalize_def Let_def)
    with pa have p1: "player_at ?w1 l = Some p" by simp
    have cs: "s_cards (c_seats (coreOf w) ! nat l) = cards p"
      using player_at_seat [OF p] by (simp add: coreOf_def)
    show ?thesis
    proof (cases "length (cards p) > 1")
      case False
      with r True p1 have "doCardRemoval ?w1 rnd l (-1) = Some w'"
        by (simp add: penalize_def Let_def)
      from doCardRemoval_core [OF ok1 this] c1 False cs show ?thesis
        by (simp add: a_penalize_def)
    next
      case big: True
      with r True p1 have "w' =
         (addLog (?w1\<lparr>phase := Penalty, penaltyPlayer := l\<rparr>) (LogChooseDiscard (name p)))
           \<lparr>outbox := outbox w @
              stateMsgs (addLog (?w1\<lparr>phase := Penalty, penaltyPlayer := l\<rparr>) (LogChooseDiscard (name p)))\<rparr>"
        by (simp add: penalize_def Let_def)
      then have "coreOf w' = (coreOf w)\<lparr>c_phase := Penalty, c_penalty := l\<rparr>"
        by (simp add: coreOf_def)
      with True big cs show ?thesis by (simp add: a_penalize_def)
    qed
  qed
qed


lemma findNextActive_loop_sound:
  "findNextActive_loop r frm i = Some k \<Longrightarrow>
   k = -1 \<or> (\<exists>p. player_at r k = Some p \<and> \<not> eliminated p)"
proof (induction r frm i rule: findNextActive_loop.induct)
  case (1 r frm i)
  show ?case
  proof (cases "i < length (players r)")
    case False
    with "1.prems" show ?thesis by (simp add: findNextActive_loop.simps [of r frm i])
  next
    case True
    let ?idx = "js_rem (frm + int i) (int (length (players r)))"
    show ?thesis
    proof (cases "player_at r ?idx")
      case None
      with True "1.prems" show ?thesis by (simp add: findNextActive_loop.simps [of r frm i])
    next
      case (Some p)
      show ?thesis
      proof (cases "eliminated p")
        case False
        with True Some "1.prems" show ?thesis
          by (auto simp: findNextActive_loop.simps [of r frm i])
      next
        case el: True
        with True Some "1.prems" have "findNextActive_loop r frm (i + 1) = Some k"
          by (simp add: findNextActive_loop.simps [of r frm i])
        with "1.IH" [OF True refl Some] el show ?thesis by simp
      qed
    qed
  qed
qed

lemma nextActiveUnpassed_loop_sound:
  "nextActiveUnpassed_loop r frm i = Some k \<Longrightarrow>
   k = -1 \<or> (\<exists>p. player_at r k = Some p \<and> \<not> eliminated p)"
proof (induction r frm i rule: nextActiveUnpassed_loop.induct)
  case (1 r frm i)
  show ?case
  proof (cases "i \<le> length (players r)")
    case False
    with "1.prems" show ?thesis by (simp add: nextActiveUnpassed_loop.simps [of r frm i])
  next
    case True
    let ?idx = "js_rem (frm + int i) (int (length (players r)))"
    show ?thesis
    proof (cases "player_at r ?idx")
      case None
      with True "1.prems" show ?thesis by (simp add: nextActiveUnpassed_loop.simps [of r frm i])
    next
      case (Some p)
      show ?thesis
      proof (cases "\<not> eliminated p \<and> \<not> passed p")
        case True
        with \<open>i \<le> length (players r)\<close> Some "1.prems" show ?thesis
          by (auto simp: nextActiveUnpassed_loop.simps [of r frm i])
      next
        case el: False
        with True Some "1.prems" have "nextActiveUnpassed_loop r frm (i + 1) = Some k"
          by (auto simp: nextActiveUnpassed_loop.simps [of r frm i])
        with "1.IH" [OF True refl Some] el show ?thesis by auto
      qed
    qed
  qed
qed

lemma seatAlive_player:
  "k = -1 \<or> (\<exists>p. player_at w k = Some p \<and> \<not> eliminated p) \<Longrightarrow>
   map seatOf (players w) = c_seats c \<Longrightarrow> seatAlive c k"
  by (auto simp: seatAlive_def dest!: player_at_SomeD) (metis length_map nth_map seatOf_simps(4))+

lemma player_at_players_cong: "players w' = players w \<Longrightarrow> player_at w' k = player_at w k"
  by (simp add: player_at_def)

lemma findNextActive_loop_players_cong:
  "players r' = players r \<Longrightarrow> findNextActive_loop r' frm i = findNextActive_loop r frm i"
proof (induction r frm i rule: findNextActive_loop.induct)
  case (1 r frm i)
  show ?case
    using "1.prems" "1.IH"
    by (subst findNextActive_loop.simps [of r' frm i], subst findNextActive_loop.simps [of r frm i])
       (auto simp: player_at_players_cong [OF "1.prems"] Let_def split: option.splits)
qed

lemma startRound_core:
  assumes ok: "timersOk w" and r: "startRound w = Some w'"
  shows "\<exists>first. coreOf w' = a_startRound (coreOf w) first \<and> seatAlive (coreOf w') first"
proof -
  define w3 where "w3 =
     (let w1 = clearTurnTimer w;
          w2 = w1\<lparr>roundNum := roundNum w1 + 1, phase := Placing, currentBid := 0,
                  highestBidder := -1, flipsRemaining := 0, totalCoastersOnTable := 0,
                  firstPlacement := True, revealedCards := []\<rparr>
      in w2\<lparr>players :=
                  map (\<lambda>p. if \<not> eliminated p
                            then p\<lparr>hand := cards p, stack := [], passed := False\<rparr> else p)
                      (players w2)\<rparr>)"
  define pick where "pick =
     (if nextRoundStarter w3 \<ge> 0
      then (case player_at w3 (nextRoundStarter w3) of
              None \<Rightarrow> None
            | Some p \<Rightarrow> if \<not> eliminated p then Some (nextRoundStarter w3)
                        else findNextActive w3 (js_rem (roundNum w3 - 1) (int (length (players w3)))))
      else findNextActive w3 (js_rem (roundNum w3 - 1) (int (length (players w3)))))"
  have r1: "startRound w =
      Option.bind pick (\<lambda>first.
         broadcastState (startTurnTimer
            (addLog (w3\<lparr>currentPlayer := first, nextRoundStarter := -1\<rparr>)
                    (LogRound (roundNum (w3\<lparr>currentPlayer := first, nextRoundStarter := -1\<rparr>))))
            20 (RoundStartExpiry first)))"
    by (simp only: startRound_def Let_def w3_def pick_def)
  have w3: "w3 =
     (clearTurnTimer w)\<lparr>roundNum := roundNum w + 1, phase := Placing, currentBid := 0,
        highestBidder := -1, flipsRemaining := 0, totalCoastersOnTable := 0,
        firstPlacement := True, revealedCards := [],
        players := map (\<lambda>p. if \<not> eliminated p
                            then p\<lparr>hand := cards p, stack := [], passed := False\<rparr> else p)
                      (players w)\<rparr>"
    by (simp add: w3_def Let_def)
  from r r1 obtain first where pk: "pick = Some first" and
    w': "w' = (startTurnTimer
            (addLog (w3\<lparr>currentPlayer := first, nextRoundStarter := -1\<rparr>) (LogRound (roundNum w3)))
            20 (RoundStartExpiry first))
          \<lparr>outbox := outbox w @ stateMsgs (startTurnTimer
            (addLog (w3\<lparr>currentPlayer := first, nextRoundStarter := -1\<rparr>) (LogRound (roundNum w3)))
            20 (RoundStartExpiry first))\<rparr>"
    by (cases pick) (auto simp: w3)
  have ok3: "timersOk w3" using ok by (simp add: w3 timersOk_clearTurnTimer)
  have s3: "map seatOf (players w3) = map resetSeat (map seatOf (players w))"
    unfolding w3 by (rule nth_equalityI) (auto simp: resetSeat_def)
  have c3: "coreOf (w3\<lparr>currentPlayer := first, nextRoundStarter := -1\<rparr>) = a_startRound (coreOf w) first"
    unfolding coreOf_def a_startRound_def using s3 ok
    by (simp add: w3 pending_clearTurnTimer)
  have c': "coreOf w' = a_startRound (coreOf w) first"
    using ok3 unfolding c3 [symmetric] w'
    by (simp add: coreOf_def pending_startTurnTimer)
  from pk have "first = -1 \<or> (\<exists>p. player_at w3 first = Some p \<and> \<not> eliminated p)"
    by (auto simp: pick_def findNextActive_def split: if_splits option.splits
             dest: findNextActive_loop_sound)
  moreover have "map seatOf (players w3) = c_seats (coreOf w')"
    unfolding c' by (simp add: a_startRound_def coreOf_def s3)
  ultimately have "seatAlive (coreOf w') first" by (rule seatAlive_player)
  with c' show ?thesis by blast
qed

lemma startGame_core:
  assumes ok: "timersOk w" and r: "startGame w = Some w'"
  shows "\<exists>first. coreOf w' = a_startGame (coreOf w) first \<and> seatAlive (coreOf w') first"
proof -
  define w3 where "w3 =
     addLog (w\<lparr>started := True, roundNum := 0,
               players := map (\<lambda>p. p\<lparr>cards := [Rose, Rose, Rose, Skull], wins := 0, eliminated := False\<rparr>)
                              (players w)\<rparr>) LogGameStarted"
  from r have r3: "startRound w3 = Some w'" by (simp add: startGame_def Let_def w3_def)
  have ok3: "timersOk w3" using ok by (simp add: w3_def)
  have s3: "map seatOf (players w3) =
              map (\<lambda>s. s\<lparr>s_cards := [Rose, Rose, Rose, Skull], s_elim := False\<rparr>) (map seatOf (players w))"
    unfolding w3_def by (rule nth_equalityI) auto
  have c3: "coreOf w3 = (coreOf w)\<lparr>c_started := True,
          c_seats := map (\<lambda>s. s\<lparr>s_cards := [Rose, Rose, Rose, Skull], s_elim := False\<rparr>) (c_seats (coreOf w))\<rparr>"
    unfolding coreOf_def using s3 by (simp add: w3_def)
  from startRound_core [OF ok3 r3] show ?thesis
    unfolding a_startGame_def c3 by simp
qed

lemma advancePlacing_core:
  assumes ok: "timersOk w" and r: "advancePlacing w = Some w'"
  shows "\<exists>next. coreOf w' = (coreOf w)\<lparr>c_current := next\<rparr> \<and> seatAlive (coreOf w) next"
proof -
  from r obtain unpassed where u: "nextActiveUnpassed w (currentPlayer w) = Some unpassed"
    by (cases "nextActiveUnpassed w (currentPlayer w)") (auto simp: advancePlacing_def)
  from r u obtain nxt where
    n: "(if unpassed = -1 then findNextActive w 0 else Some unpassed) = Some nxt"
    by (cases "if unpassed = -1 then findNextActive w 0 else Some unpassed")
       (auto simp: advancePlacing_def)
  from u n have al: "nxt = -1 \<or> (\<exists>p. player_at w nxt = Some p \<and> \<not> eliminated p)"
    by (auto simp: nextActiveUnpassed_def findNextActive_def split: if_splits
             dest: nextActiveUnpassed_loop_sound findNextActive_loop_sound)
  then have sa: "seatAlive (coreOf w) nxt"
    by (rule seatAlive_player) (simp add: coreOf_def)
  let ?w1 = "w\<lparr>currentPlayer := nxt\<rparr>"
  have ok1: "timersOk ?w1" using ok by simp
  have c1: "coreOf ?w1 = (coreOf w)\<lparr>c_current := nxt\<rparr>" by (simp add: coreOf_def)
  from r u n have
    "w' = (setTimeout ((clearTurnTimer ?w1)\<lparr>outbox := outbox w @ stateMsgs (clearTurnTimer ?w1)\<rparr>)
             (ForcedBid nxt) 800) \<or>
     w' = (startTurnTimer ?w1 20 (PlacingExpiry nxt))
            \<lparr>outbox := outbox w @ stateMsgs (startTurnTimer ?w1 20 (PlacingExpiry nxt))\<rparr>"
    by (auto simp: advancePlacing_def Let_def split: option.splits if_splits)
  then have "coreOf w' = coreOf ?w1"
    using ok1 by (auto simp: coreOf_def pending_clearTurnTimer pending_startTurnTimer)
  with c1 sa show ?thesis by auto
qed

lemma list_all_seatOf:
  "list_all (\<lambda>pl. eliminated pl \<or> 0 < length (stack pl)) ps
   \<longleftrightarrow> list_all (\<lambda>s. s_elim s \<or> s_stack s \<noteq> []) (map seatOf ps)"
  by (simp add: list_all_iff)

lemma handlePlace_core:
  assumes ok: "timersOk w" and r: "handlePlace w i k = Some w'"
    and g: "phase w = Placing" "currentPlayer w = i" "player_at w i = Some p"
       "0 \<le> k" "k < int (length (hand p))"
  shows "\<exists>next. coreOf w' = a_place (coreOf w) (nat i) (nat k) next \<and> seatAlive (coreOf w') next"
proof -
  define p1 where "p1 = p\<lparr>hand := take (nat k) (hand p) @ drop (nat k + 1) (hand p),
                           stack := stack p @ [hand p ! nat k]\<rparr>"
  define w3 where "w3 =
     addLog ((set_player w i p1)\<lparr>totalCoastersOnTable := countOnTable (set_player w i p1)\<rparr>)
            (LogPlaced (name p))"
  define w4 where "w4 =
     (if list_all (\<lambda>pl. eliminated pl \<or> length (stack pl) > 0) (players w3)
      then w3\<lparr>firstPlacement := False\<rparr> else w3)"
  from r g have r4: "advancePlacing w4 = Some w'"
    by (auto simp: handlePlace_def Let_def w4_def w3_def p1_def split: if_splits)
  have ok4: "timersOk w4" using ok by (simp add: w4_def w3_def)
  have s1: "seatOf p1 = placeSeat (seatOf p) (nat k)"
    by (simp add: p1_def placeSeat_def seatOf_def)
  have ss: "map seatOf (players w3) = (map seatOf (players w))[nat i := placeSeat (map seatOf (players w) ! nat i) (nat k)]"
    using player_at_seat [OF g(3)] by (simp add: w3_def map_update s1)
  have la: "list_all (\<lambda>pl. eliminated pl \<or> length (stack pl) > 0) (players w3) \<longleftrightarrow>
            list_all (\<lambda>s. s_elim s \<or> s_stack s \<noteq> [])
              ((map seatOf (players w))[nat i := placeSeat (map seatOf (players w) ! nat i) (nat k)])"
    unfolding ss [symmetric] by (rule list_all_seatOf)
  have t3: "totalCoastersOnTable w3 =
              tableCount ((map seatOf (players w))[nat i := placeSeat (map seatOf (players w) ! nat i) (nat k)])"
    unfolding ss [symmetric] by (simp add: w3_def countOnTable_seats)
  have f3: "currentPlayer w3 = currentPlayer w" "started w3 = started w" "phase w3 = phase w"
    "currentBid w3 = currentBid w" "highestBidder w3 = highestBidder w"
    "firstPlacement w3 = firstPlacement w" "penaltyPlayer w3 = penaltyPlayer w"
    "revealedCards w3 = revealedCards w" "timers w3 = timers w"
    by (simp_all add: w3_def)
  have c4: "coreOf w4 = (a_place (coreOf w) (nat i) (nat k) (currentPlayer w))"
  proof (cases "list_all (\<lambda>pl. eliminated pl \<or> length (stack pl) > 0) (players w3)")
    case True
    then have "w4 = w3\<lparr>firstPlacement := False\<rparr>" by (simp add: w4_def)
    with True la show ?thesis
      by (simp add: coreOf_def a_place_def Let_def ss t3 f3)
  next
    case False
    then have "w4 = w3" by (simp add: w4_def)
    with False la show ?thesis
      by (simp add: coreOf_def a_place_def Let_def ss t3 f3)
  qed
  from advancePlacing_core [OF ok4 r4] obtain nxt where
    n: "coreOf w' = (coreOf w4)\<lparr>c_current := nxt\<rparr>" "seatAlive (coreOf w4) nxt"
    by blast
  from n(1) c4 have "coreOf w' = a_place (coreOf w) (nat i) (nat k) nxt"
    by (simp add: a_place_def Let_def)
  moreover from n have "seatAlive (coreOf w') nxt"
    by (simp add: seatAlive_def)
  ultimately show ?thesis by blast
qed

lemma joinFound_core:
  assumes "joinFound w c sid nm = Some (reply, w')"
  shows "coreOf w' = coreOf w \<or>
         (\<not> started w \<and> coreOf w' = (coreOf w)\<lparr>c_seats := c_seats (coreOf w) @ [emptySeat]\<rparr>)"
proof (cases "started w")
  case True
  show ?thesis
  proof (cases "player_at w (findIndex (\<lambda>p. name p = nm \<and> \<not> connected p) (players w))")
    case None
    with True assms show ?thesis by (simp add: joinFound_def Let_def)
  next
    case (Some existing)
    from player_at_SomeD [OF Some] have
      "map seatOf ((players w)[nat (findIndex (\<lambda>p. name p = nm \<and> \<not> connected p) (players w))
                      := existing\<lparr>ident := sid, connected := True\<rparr>]) = map seatOf (players w)"
      by (simp add: map_update list_update_same_conv)
    with True Some assms show ?thesis
      by (auto simp: joinFound_def Let_def coreOf_def)
  qed
next
  case False
  with assms show ?thesis
    by (auto simp: joinFound_def Let_def coreOf_def emptySeat_def newPlayer_def seatOf_def
             split: if_splits)
qed

lemma on_chatMessage_core: "on_chatMessage w sid msg = Some w' \<Longrightarrow> coreOf w' = coreOf w"
proof -
  assume r: "on_chatMessage w sid msg = Some w'"
  show ?thesis
  proof (cases "player_at w (playerIndex w sid)")
    case None
    with r show ?thesis by (simp add: on_chatMessage_def Let_def split: if_splits)
  next
    case (Some p)
    from player_at_SomeD [OF Some] have
      "map seatOf ((players w)[nat (playerIndex w sid) := p\<lparr>lastChatTime := Some (now w)\<rparr>])
         = map seatOf (players w)"
      by (simp add: map_update list_update_same_conv)
    with r Some show ?thesis
      by (auto simp: on_chatMessage_def Let_def coreOf_def split: if_splits)
  qed
qed

lemma on_dougLose_core: "on_dougLose w sid = Some w' \<Longrightarrow> coreOf w' = coreOf w"
  by (auto simp: on_dougLose_def Let_def coreOf_def split: if_splits option.splits)

lemma on_disconnect_core:
  assumes "on_disconnect w sid = Some w'"
  shows "coreOf w' = coreOf w \<or>
         (\<not> started w \<and> (\<exists>k. coreOf w' =
             (coreOf w)\<lparr>c_seats := take k (c_seats (coreOf w)) @ drop (k + 1) (c_seats (coreOf w))\<rparr>))"
proof (cases "player_at w (playerIndex w sid)")
  case None
  with assms show ?thesis by (simp add: on_disconnect_def Let_def split: if_splits)
next
  case (Some p)
  show ?thesis
  proof (cases "started w")
    case True
    from player_at_SomeD [OF Some] have
      "map seatOf ((players w)[nat (playerIndex w sid) := p\<lparr>connected := False\<rparr>])
         = map seatOf (players w)"
      by (simp add: map_update list_update_same_conv)
    with assms Some True show ?thesis
      by (auto simp: on_disconnect_def Let_def coreOf_def split: if_splits)
  next
    case False
    show ?thesis
    proof (cases "inRegistry w")
      case out: False
      with assms show ?thesis by (simp add: on_disconnect_def)
    next
      case True
      with assms Some False have "coreOf w' =
             (coreOf w)\<lparr>c_seats := take (nat (playerIndex w sid)) (c_seats (coreOf w))
                            @ drop (nat (playerIndex w sid) + 1) (c_seats (coreOf w))\<rparr>"
        by (auto simp: on_disconnect_def Let_def coreOf_def take_map drop_map split: if_splits)
      with False show ?thesis by blast
    qed
  qed
qed

lemmas inv_defs = inv_phase_def inv_elim_def inv_cards_def inv_cache_def inv_tokens_def
  inv_reveals_def inv_pending_def inv_bidder_def inv_alive_def inv_placed_def inv_bid_def
  inv_turn_def

lemma in_set_upd_cases:
  assumes "s \<in> set (xs[i := y])"
  obtains "s = y" | "s \<in> set xs"
  using assms set_update_subset_insert [of xs i y] by auto

lemma filter_update_elim:
  "s_elim y = s_elim (xs ! i) \<Longrightarrow>
   length (filter (\<lambda>s. \<not> s_elim s) (xs[i := y])) = length (filter (\<lambda>s. \<not> s_elim s) xs)"
proof (induction xs arbitrary: i)
  case Nil
  then show ?case by simp
next
  case (Cons x xs)
  then show ?case by (cases i) auto
qed

lemma cinv_place:
  assumes inv: "cinv c"
    and g: "c_phase c = Placing" "c_current c = int i" "i < length (c_seats c)"
       "k < length (s_hand (c_seats c ! i))"
    and n: "seatAlive (a_place c i k nxt) nxt"
  shows "cinv (a_place c i k nxt)"
proof -
  let ?ss = "(c_seats c)[i := placeSeat (c_seats c ! i) k]"
  let ?c' = "a_place c i k nxt"
  from inv g have alive_i: "\<not> s_elim (c_seats c ! i)"
    by (auto simp: cinv_def inv_turn_def seatAlive_def)
  have el: "\<And>j. s_elim (?ss ! j) = s_elim (c_seats c ! j)"
    using g(3) by (simp add: nth_list_update placeSeat_def)
  have f: "c_seats ?c' = ?ss" "c_phase ?c' = Placing" "c_started ?c' = c_started c"
    "c_pending ?c' = c_pending c" "c_reveals ?c' = c_reveals c" "c_total ?c' = tableCount ?ss"
    "c_current ?c' = nxt" "c_bidder ?c' = c_bidder c" "c_bid ?c' = c_bid c"
    "c_first ?c' = (if list_all (\<lambda>s. s_elim s \<or> s_stack s \<noteq> []) ?ss then False else c_first c)"
    using g by (simp_all add: a_place_def Let_def)
  have 1: "inv_phase ?c'" using inv g by (simp add: cinv_def inv_phase_def f)
  have 2: "inv_elim ?c'"
    unfolding inv_elim_def f
  proof
    fix s assume "s \<in> set ?ss"
    then show "s_elim s \<longrightarrow> s_stack s = []"
    proof (rule in_set_upd_cases)
      assume "s = placeSeat (c_seats c ! i) k"
      with alive_i show ?thesis by (simp add: placeSeat_def)
    next
      assume "s \<in> set (c_seats c)"
      with inv show ?thesis by (simp add: cinv_def inv_elim_def)
    qed
  qed
  have 3: "inv_cards ?c'"
    unfolding inv_cards_def f
  proof (intro impI ballI)
    fix s assume st: "c_started c" and "s \<in> set ?ss" and ne: "\<not> s_elim s"
    from this(2) show "s_cards s \<noteq> []"
    proof (rule in_set_upd_cases)
      assume "s = placeSeat (c_seats c ! i) k"
      moreover from inv st alive_i g(3) have "s_cards (c_seats c ! i) \<noteq> []"
        by (auto simp: cinv_def inv_cards_def)
      ultimately show ?thesis by (simp add: placeSeat_def)
    next
      assume "s \<in> set (c_seats c)"
      with inv st ne show ?thesis by (simp add: cinv_def inv_cards_def)
    qed
  qed
  have 4: "inv_cache ?c'" by (simp add: inv_cache_def f)
  have 5: "inv_tokens ?c'"
    unfolding inv_tokens_def f
  proof (intro impI allI)
    fix j
    assume a: "activePhase Placing \<and> StartRoundCb \<notin> set (c_pending c)"
      and j: "j < length ?ss" and nj: "\<not> s_elim (?ss ! j)"
    from inv a g j nj el [of j] have e:
      "length (s_hand (c_seats c ! j)) + length (s_stack (c_seats c ! j)) + revealsOf c j
         = length (s_cards (c_seats c ! j))"
      by (simp add: cinv_def inv_tokens_def)
    have r: "revealsOf ?c' j = revealsOf c j" by (simp add: revealsOf_def f)
    show "length (s_hand (?ss ! j)) + length (s_stack (?ss ! j)) + revealsOf ?c' j
           = length (s_cards (?ss ! j))"
    proof (cases "j = i")
      case True
      with g e r show ?thesis by (simp add: placeSeat_def)
    next
      case False
      with e r show ?thesis by simp
    qed
  qed
  have 6: "inv_reveals ?c'" using inv g by (simp add: cinv_def inv_reveals_def f)
  have 7: "inv_pending ?c'" using inv g by (simp add: cinv_def inv_pending_def f)
  have 8: "inv_bidder ?c'" by (simp add: inv_bidder_def f)
  have 9: "inv_alive ?c'"
    using inv g filter_update_elim [of "placeSeat (c_seats c ! i) k" "c_seats c" i]
    by (simp add: cinv_def inv_alive_def f placeSeat_def)
  have 10: "inv_placed ?c'"
    unfolding inv_placed_def f
  proof (intro impI ballI)
    fix s
    assume a: "Placing = Placing \<and>
        \<not> (if list_all (\<lambda>s. s_elim s \<or> s_stack s \<noteq> []) ?ss then False else c_first c)"
      and s: "s \<in> set ?ss" and ne: "\<not> s_elim s"
    show "s_stack s \<noteq> []"
    proof (cases "list_all (\<lambda>s. s_elim s \<or> s_stack s \<noteq> []) ?ss")
      case True
      with s ne show ?thesis by (auto simp: list_all_iff)
    next
      case False
      with a have nf: "\<not> c_first c" by simp
      from s show ?thesis
      proof (rule in_set_upd_cases)
        assume "s = placeSeat (c_seats c ! i) k"
        then show ?thesis by (simp add: placeSeat_def)
      next
        assume "s \<in> set (c_seats c)"
        with inv g nf ne show ?thesis by (simp add: cinv_def inv_placed_def)
      qed
    qed
  qed
  have 11: "inv_bid ?c'" by (simp add: inv_bid_def f)
  have 12: "inv_turn ?c'" using n by (simp add: inv_turn_def f)
  from 1 2 3 4 5 6 7 8 9 10 11 12 show ?thesis by (simp add: cinv_def)
qed

lemma cinv_check:
  assumes p: "precheck c"
  shows "cinv (a_check c)"
proof (cases "noOtherBidder c \<or> c_bid c \<ge> tableCount (c_seats c)")
  case True
  then have e: "a_check c = c\<lparr>c_total := tableCount (c_seats c), c_phase := Flipping,
                              c_current := c_bidder c, c_reveals := []\<rparr>"
    by (simp add: a_check_def Let_def)
  let ?c' = "c\<lparr>c_total := tableCount (c_seats c), c_phase := Flipping,
                c_current := c_bidder c, c_reveals := []\<rparr>"
  from p have ph: "c_phase c = Bidding" and r: "c_reveals c = []"
    by (simp_all add: precheck_def inv_reveals_def)
  have 1: "inv_phase ?c'" using p by (simp add: precheck_def inv_phase_def)
  have 2: "inv_elim ?c'" using p by (simp add: precheck_def inv_elim_def)
  have 3: "inv_cards ?c'" using p by (simp add: precheck_def inv_cards_def)
  have 4: "inv_cache ?c'" by (simp add: inv_cache_def)
  have 5: "inv_tokens ?c'" using p ph r
    by (simp add: precheck_def inv_tokens_def activePhase_def revealsOf_def)
  have 6: "inv_reveals ?c'" by (simp add: inv_reveals_def)
  have 7: "inv_pending ?c'" using p ph by (simp add: precheck_def inv_pending_def)
  have 8: "inv_bidder ?c'" using p by (simp add: precheck_def inv_bidder_def)
  have 9: "inv_alive ?c'" using p ph by (simp add: precheck_def inv_alive_def)
  have 10: "inv_placed ?c'" by (simp add: inv_placed_def)
  have 11: "inv_bid ?c'" by (simp add: inv_bid_def)
  have 12: "inv_turn ?c'" by (simp add: inv_turn_def)
  from 1 2 3 4 5 6 7 8 9 10 11 12 show ?thesis unfolding e by (simp add: cinv_def)
next
  case False
  then have e: "a_check c = c\<lparr>c_total := tableCount (c_seats c)\<rparr>"
    by (simp add: a_check_def Let_def)
  let ?c' = "c\<lparr>c_total := tableCount (c_seats c)\<rparr>"
  have n: "noOtherBidder ?c' = noOtherBidder c"
    by (simp add: noOtherBidder_def)
  from p have ph: "c_phase c = Bidding" by (simp add: precheck_def)
  have 1: "inv_phase ?c'" using p by (simp add: precheck_def inv_phase_def)
  have 2: "inv_elim ?c'" using p by (simp add: precheck_def inv_elim_def)
  have 3: "inv_cards ?c'" using p by (simp add: precheck_def inv_cards_def)
  have 4: "inv_cache ?c'" by (simp add: inv_cache_def)
  have 5: "inv_tokens ?c'" using p ph
    by (simp add: precheck_def inv_tokens_def activePhase_def revealsOf_def)
  have 6: "inv_reveals ?c'" using p by (simp add: precheck_def inv_reveals_def)
  have 7: "inv_pending ?c'" using p ph by (simp add: precheck_def inv_pending_def)
  have 8: "inv_bidder ?c'" using ph by (simp add: inv_bidder_def)
  have 9: "inv_alive ?c'" using p ph by (simp add: precheck_def inv_alive_def)
  have 10: "inv_placed ?c'" using ph by (simp add: inv_placed_def)
  have 11: "inv_bid ?c'" using p False by (simp add: precheck_def inv_bid_def n)
  have 12: "inv_turn ?c'" using ph by (simp add: inv_turn_def)
  from 1 2 3 4 5 6 7 8 9 10 11 12 show ?thesis unfolding e by (simp add: cinv_def)
qed

lemma tableCount_Nil [simp]: "tableCount [] = 0"
  by (simp add: tableCount_def)

lemma tableCount_Cons [simp]: "tableCount (x # xs) = int (length (s_stack x)) + tableCount xs"
  by (simp add: tableCount_def)

lemma tableCount_nonneg: "0 \<le> tableCount ss"
  by (induction ss) simp_all

lemma tableCount_pos: "s \<in> set ss \<Longrightarrow> s_stack s \<noteq> [] \<Longrightarrow> 1 \<le> tableCount ss"
proof (induction ss)
  case Nil
  then show ?case by simp
next
  case (Cons x xs)
  have nn: "0 \<le> tableCount xs" by (rule tableCount_nonneg)
  show ?case
  proof (cases "s = x")
    case True
    with Cons.prems have "1 \<le> int (length (s_stack x))" by (cases "s_stack x") auto
    with nn show ?thesis by simp
  next
    case False
    with Cons have "1 \<le> tableCount xs" by simp
    then show ?thesis by simp
  qed
qed

lemma tableCount_stacks:
  "tableCount ss = sum_list (map (\<lambda>st. int (length st)) (map s_stack ss))"
  by (simp add: tableCount_def comp_def)

lemma tableCount_cong:
  "map s_stack ss' = map s_stack ss \<Longrightarrow> tableCount ss' = tableCount ss"
  by (simp add: tableCount_stacks)

lemma aliveCount_cong:
  "map s_elim ss' = map s_elim ss \<Longrightarrow>
   length (filter (\<lambda>s. \<not> s_elim s) ss') = length (filter (\<lambda>s. \<not> s_elim s) ss)"
proof (induction ss' arbitrary: ss)
  case Nil
  then show ?case by simp
next
  case (Cons x xs)
  then show ?case by (cases ss) auto
qed

lemma placed_table_pos:
  assumes "cinv c" and "c_phase c = Placing" and "\<not> c_first c"
  shows "1 \<le> tableCount (c_seats c)"
proof -
  from assms have "2 \<le> length (filter (\<lambda>s. \<not> s_elim s) (c_seats c))"
    by (simp add: cinv_def inv_alive_def inv_phase_def)
  then have "filter (\<lambda>s. \<not> s_elim s) (c_seats c) \<noteq> []" by auto
  then obtain s where s: "s \<in> set (c_seats c)" "\<not> s_elim s"
    by (auto simp: filter_empty_conv)
  with assms have "s_stack s \<noteq> []" by (simp add: cinv_def inv_placed_def)
  with s show ?thesis by (auto intro: tableCount_pos)
qed

text \<open>Replacing the seats by seats with the same tokens and eliminated flags (the passed flags
  may differ) keeps every component that does not read the passed flags.\<close>

lemma invs_seats_cong:
  assumes l: "length ss = length (c_seats c)"
    and e: "\<And>j. j < length ss \<Longrightarrow>
              s_cards (ss ! j) = s_cards (c_seats c ! j) \<and> s_hand (ss ! j) = s_hand (c_seats c ! j) \<and>
              s_stack (ss ! j) = s_stack (c_seats c ! j) \<and> s_elim (ss ! j) = s_elim (c_seats c ! j)"
  shows "tableCount ss = tableCount (c_seats c)"
    and "length (filter (\<lambda>s. \<not> s_elim s) ss) = length (filter (\<lambda>s. \<not> s_elim s) (c_seats c))"
    and "inv_elim c \<Longrightarrow> inv_elim (c\<lparr>c_seats := ss\<rparr>)"
    and "inv_cards c \<Longrightarrow> inv_cards (c\<lparr>c_seats := ss\<rparr>)"
    and "inv_tokens c \<Longrightarrow> inv_tokens (c\<lparr>c_seats := ss\<rparr>)"
proof -
  have "map s_stack ss = map s_stack (c_seats c)"
    using l e by (auto simp: list_eq_iff_nth_eq)
  then show "tableCount ss = tableCount (c_seats c)" by (rule tableCount_cong)
  have "map s_elim ss = map s_elim (c_seats c)"
    using l e by (auto simp: list_eq_iff_nth_eq)
  then show "length (filter (\<lambda>s. \<not> s_elim s) ss) = length (filter (\<lambda>s. \<not> s_elim s) (c_seats c))"
    by (rule aliveCount_cong)
  show "inv_elim c \<Longrightarrow> inv_elim (c\<lparr>c_seats := ss\<rparr>)"
    using l e by (simp add: inv_elim_def all_set_conv_all_nth)
  show "inv_cards c \<Longrightarrow> inv_cards (c\<lparr>c_seats := ss\<rparr>)"
    using l e by (simp add: inv_cards_def all_set_conv_all_nth)
  show "inv_tokens c \<Longrightarrow> inv_tokens (c\<lparr>c_seats := ss\<rparr>)"
    using l e by (simp add: inv_tokens_def revealsOf_def)
qed

lemma precheck_open:
  assumes inv: "cinv c"
    and g: "c_phase c = Placing" "c_current c = i" "\<not> c_first c" "0 \<le> i"
       "nat i < length (c_seats c)"
  shows "precheck (a_open c i amount)"
proof -
  let ?ss = "map (\<lambda>s. s\<lparr>s_passed := False\<rparr>) (c_seats c)"
  let ?b = "max 1 (min (if amount = 0 then 1 else amount) (tableCount (c_seats c)))"
  let ?c1 = "c\<lparr>c_seats := ?ss\<rparr>"
  have e: "a_open c i amount =
             ?c1\<lparr>c_total := tableCount (c_seats c), c_phase := Bidding, c_bid := ?b,
                  c_bidder := i, c_current := -1\<rparr>"
    by (simp add: a_open_def)
  let ?c' = "?c1\<lparr>c_total := tableCount (c_seats c), c_phase := Bidding, c_bid := ?b,
                  c_bidder := i, c_current := -1\<rparr>"
  have l: "length ?ss = length (c_seats c)" by simp
  have q: "\<And>j. j < length ?ss \<Longrightarrow>
              s_cards (?ss ! j) = s_cards (c_seats c ! j) \<and> s_hand (?ss ! j) = s_hand (c_seats c ! j) \<and>
              s_stack (?ss ! j) = s_stack (c_seats c ! j) \<and> s_elim (?ss ! j) = s_elim (c_seats c ! j)"
    by simp
  note sc = invs_seats_cong [OF l q]
  from inv g have pos: "1 \<le> tableCount (c_seats c)" by (intro placed_table_pos)
  from inv g have al: "\<not> s_elim (c_seats c ! nat i)"
    by (auto simp: cinv_def inv_turn_def seatAlive_def)
  from inv g have rv: "c_reveals c = []" "c_pending c = []" "c_started c"
    by (simp_all add: cinv_def inv_reveals_def inv_pending_def inv_phase_def)
  have 1: "inv_phase ?c'" using rv by (simp add: inv_phase_def)
  have 2: "inv_elim ?c'" using sc(3) inv by (simp add: cinv_def inv_elim_def)
  have 3: "inv_cards ?c'" using sc(4) inv by (simp add: cinv_def inv_cards_def)
  have 5: "inv_tokens ?c'" using sc(5) inv g rv
    by (simp add: cinv_def inv_tokens_def activePhase_def revealsOf_def)
  have 6: "inv_reveals ?c'" using rv by (simp add: inv_reveals_def)
  have 7: "inv_pending ?c'" using rv by (simp add: inv_pending_def)
  have 9: "inv_alive ?c'" using sc(2) inv g by (simp add: cinv_def inv_alive_def)
  from 1 2 3 5 6 7 9 pos al g sc(1) show ?thesis
    unfolding e precheck_def by simp
qed

lemma precheck_raise:
  assumes inv: "cinv c"
    and g: "c_phase c = Bidding" "0 \<le> i" "nat i < length (c_seats c)"
       "\<not> s_elim (c_seats c ! nat i)" "c_bid c < amount" "amount \<le> tableCount (c_seats c)"
  shows "precheck (a_raise c i amount)"
proof -
  let ?c' = "c\<lparr>c_total := tableCount (c_seats c), c_bid := amount, c_bidder := i\<rparr>"
  from inv g have b: "1 \<le> c_bid c" by (simp add: cinv_def inv_bid_def)
  have 1: "inv_phase ?c'" using inv by (simp add: cinv_def inv_phase_def)
  have 2: "inv_elim ?c'" using inv by (simp add: cinv_def inv_elim_def)
  have 3: "inv_cards ?c'" using inv by (simp add: cinv_def inv_cards_def)
  have 5: "inv_tokens ?c'" using inv by (simp add: cinv_def inv_tokens_def revealsOf_def)
  have 6: "inv_reveals ?c'" using inv by (simp add: cinv_def inv_reveals_def)
  have 7: "inv_pending ?c'" using inv g by (simp add: cinv_def inv_pending_def)
  have 9: "inv_alive ?c'" using inv by (simp add: cinv_def inv_alive_def)
  from 1 2 3 5 6 7 9 g b show ?thesis
    unfolding a_raise_def precheck_def by simp
qed

lemma cinv_total:
  assumes inv: "cinv c" and ph: "c_phase c = Bidding"
  shows "cinv (c\<lparr>c_total := tableCount (c_seats c)\<rparr>)"
proof -
  let ?c' = "c\<lparr>c_total := tableCount (c_seats c)\<rparr>"
  have n: "noOtherBidder ?c' = noOtherBidder c"
    by (simp add: noOtherBidder_def)
  have 1: "inv_phase ?c'" using inv by (simp add: cinv_def inv_phase_def)
  have 2: "inv_elim ?c'" using inv by (simp add: cinv_def inv_elim_def)
  have 3: "inv_cards ?c'" using inv by (simp add: cinv_def inv_cards_def)
  have 4: "inv_cache ?c'" by (simp add: inv_cache_def)
  have 5: "inv_tokens ?c'" using inv by (simp add: cinv_def inv_tokens_def revealsOf_def)
  have 6: "inv_reveals ?c'" using inv by (simp add: cinv_def inv_reveals_def)
  have 7: "inv_pending ?c'" using inv by (simp add: cinv_def inv_pending_def)
  have 8: "inv_bidder ?c'" using ph by (simp add: inv_bidder_def)
  have 9: "inv_alive ?c'" using inv by (simp add: cinv_def inv_alive_def)
  have 10: "inv_placed ?c'" using ph by (simp add: inv_placed_def)
  have 11: "inv_bid ?c'" using inv by (simp add: cinv_def inv_bid_def n)
  have 12: "inv_turn ?c'" using ph by (simp add: inv_turn_def)
  from 1 2 3 4 5 6 7 8 9 10 11 12 show ?thesis by (simp add: cinv_def)
qed

lemma precheck_seats_passed:
  assumes inv: "cinv c" and g: "c_phase c = Bidding"
    and l: "length ss = length (c_seats c)"
    and e: "\<And>j. j < length ss \<Longrightarrow>
              s_cards (ss ! j) = s_cards (c_seats c ! j) \<and> s_hand (ss ! j) = s_hand (c_seats c ! j) \<and>
              s_stack (ss ! j) = s_stack (c_seats c ! j) \<and> s_elim (ss ! j) = s_elim (c_seats c ! j)"
  shows "precheck (c\<lparr>c_seats := ss\<rparr>)"
proof -
  note sc = invs_seats_cong [OF l e]
  let ?c' = "c\<lparr>c_seats := ss\<rparr>"
  from inv g have b: "1 \<le> c_bid c" "c_bid c < tableCount (c_seats c)" "0 \<le> c_bidder c"
    "nat (c_bidder c) < length (c_seats c)" "\<not> s_elim (c_seats c ! nat (c_bidder c))"
    by (simp_all add: cinv_def inv_bid_def)
  have 1: "inv_phase ?c'" using inv by (simp add: cinv_def inv_phase_def)
  have 2: "inv_elim ?c'" using sc(3) inv by (simp add: cinv_def)
  have 3: "inv_cards ?c'" using sc(4) inv by (simp add: cinv_def)
  have 5: "inv_tokens ?c'" using sc(5) inv by (simp add: cinv_def)
  have 6: "inv_reveals ?c'" using inv by (simp add: cinv_def inv_reveals_def)
  have 7: "inv_pending ?c'" using inv by (simp add: cinv_def inv_pending_def)
  have 9: "inv_alive ?c'" using sc(2) inv by (simp add: cinv_def inv_alive_def)
  from 1 2 3 5 6 7 9 g b sc(1) l e [of "nat (c_bidder c)"] show ?thesis
    unfolding precheck_def by simp
qed

lemma precheck_pass:
  assumes inv: "cinv c" and g: "c_phase c = Bidding" "i < length (c_seats c)"
  shows "precheck (a_pass c i)"
  unfolding a_pass_def
  using g by (intro precheck_seats_passed [OF inv]) (auto simp: nth_list_update)

lemma precheck_autoPass:
  assumes inv: "cinv c" and g: "c_phase c = Bidding"
  shows "precheck (a_autoPass c)"
  unfolding a_autoPass_def
  using g by (intro precheck_seats_passed [OF inv]) (auto simp: nth_enumerate_eq)

lemma cinvD:
  assumes "cinv c"
  shows "inv_phase c" "inv_elim c" "inv_cards c" "inv_cache c" "inv_tokens c" "inv_reveals c"
    "inv_pending c" "inv_bidder c" "inv_alive c" "inv_placed c" "inv_bid c" "inv_turn c"
  using assms by (simp_all add: cinv_def)

lemma map_update_same: "(map f xs)[t := f (xs ! t)] = map f xs"
  by (induction xs arbitrary: t) (auto split: nat.splits)

lemma tableCount_zero: "\<forall>s \<in> set ss. s_stack s = [] \<Longrightarrow> tableCount ss = 0"
  by (induction ss) auto

lemma revealsOf_append:
  "revealsOf (c\<lparr>c_reveals := c_reveals c @ [int t]\<rparr>) j = revealsOf c j + (if j = t then 1 else 0)"
  by (simp add: revealsOf_def)

lemma cinv_flip:
  assumes inv: "cinv c"
    and g: "c_phase c = Flipping" "t < length (c_seats c)" "s_stack (c_seats c ! t) \<noteq> []"
    and o: "ph = Flipping \<and> pend = [] \<or>
            ph = FlipResult \<and> (pend = [PenalizeCb (c_bidder c) (int t)] \<or> pend = [ChallengeSuccessCb (c_bidder c)])"
  shows "cinv ((a_flipped c t)\<lparr>c_phase := ph, c_pending := pend\<rparr>)"
proof -
  let ?s' = "(c_seats c ! t)\<lparr>s_stack := butlast (s_stack (c_seats c ! t))\<rparr>"
  let ?ss = "(c_seats c)[t := ?s']"
  let ?c1 = "c\<lparr>c_reveals := c_reveals c @ [int t]\<rparr>"
  let ?c' = "?c1\<lparr>c_seats := ?ss, c_total := tableCount ?ss, c_phase := ph, c_pending := pend\<rparr>"
  have e: "(a_flipped c t)\<lparr>c_phase := ph, c_pending := pend\<rparr> = ?c'"
    by (simp add: a_flipped_def Let_def)
  note i = cinvD [OF inv]
  from i(7) g have pe: "c_pending c = []" by (simp add: inv_pending_def)
  from o have sr: "StartRoundCb \<notin> set pend" by auto
  from o have ph: "ph = Flipping \<or> ph = FlipResult" by auto
  have el: "\<And>j. s_elim (?ss ! j) = s_elim (c_seats c ! j)"
    using g(2) by (simp add: nth_list_update)
  have me: "map s_elim ?ss = map s_elim (c_seats c)"
    by (simp add: map_update map_update_same)
  have 1: "inv_phase ?c'" using i(1) g ph by (auto simp: inv_phase_def)
  have 2: "inv_elim ?c'"
    unfolding inv_elim_def
  proof
    fix s assume "s \<in> set (c_seats ?c')"
    then have "s \<in> set ?ss" by simp
    then show "s_elim s \<longrightarrow> s_stack s = []"
    proof (rule in_set_upd_cases)
      assume "s = ?s'"
      with i(2) g(2) show ?thesis by (auto simp: inv_elim_def)
    next
      assume "s \<in> set (c_seats c)"
      with i(2) show ?thesis by (simp add: inv_elim_def)
    qed
  qed
  have 3: "inv_cards ?c'"
    unfolding inv_cards_def
  proof (intro impI ballI)
    fix s assume st: "c_started ?c'" and "s \<in> set (c_seats ?c')" and ne: "\<not> s_elim s"
    then have "s \<in> set ?ss" by simp
    then show "s_cards s \<noteq> []"
    proof (rule in_set_upd_cases)
      assume "s = ?s'"
      with i(3) st ne g(2) show ?thesis by (auto simp: inv_cards_def)
    next
      assume "s \<in> set (c_seats c)"
      with i(3) st ne show ?thesis by (simp add: inv_cards_def)
    qed
  qed
  have 4: "inv_cache ?c'" by (simp add: inv_cache_def)
  have 5: "inv_tokens ?c'"
    unfolding inv_tokens_def
  proof (intro impI allI)
    fix j
    assume j: "j < length (c_seats ?c')" and nj: "\<not> s_elim (c_seats ?c' ! j)"
    from i(5) g pe j nj el [of j] have q:
      "length (s_hand (c_seats c ! j)) + length (s_stack (c_seats c ! j)) + revealsOf c j
         = length (s_cards (c_seats c ! j))"
      by (simp add: inv_tokens_def activePhase_def)
    have r: "revealsOf ?c' j = revealsOf c j + (if j = t then 1 else 0)"
      by (simp add: revealsOf_def)
    show "length (s_hand (c_seats ?c' ! j)) + length (s_stack (c_seats ?c' ! j)) + revealsOf ?c' j
           = length (s_cards (c_seats ?c' ! j))"
    proof (cases "j = t")
      case True
      from g(3) obtain n where "length (s_stack (c_seats c ! t)) = Suc n"
        by (cases "s_stack (c_seats c ! t)") auto
      with True g q r show ?thesis by simp
    next
      case False
      with q r show ?thesis by simp
    qed
  qed
  have 6: "inv_reveals ?c'" using ph by (auto simp: inv_reveals_def)
  have 7: "inv_pending ?c'" using o by (auto simp: inv_pending_def)
  have 8: "inv_bidder ?c'" using i(8) g ph el [of "nat (c_bidder c)"]
    by (auto simp: inv_bidder_def)
  have 9: "inv_alive ?c'" using i(9) g aliveCount_cong [OF me]
    by (simp add: inv_alive_def)
  have 10: "inv_placed ?c'" using ph by (auto simp: inv_placed_def)
  have 11: "inv_bid ?c'" using ph by (auto simp: inv_bid_def)
  have 12: "inv_turn ?c'" using ph by (auto simp: inv_turn_def)
  from 1 2 3 4 5 6 7 8 9 10 11 12 show ?thesis unfolding e by (simp add: cinv_def)
qed

lemma cinv_success:
  assumes inv: "cinv c" and g: "c_phase c = FlipResult" "StartRoundCb \<notin> set (c_pending c)"
  shows "cinv (c\<lparr>c_pending := [], c_phase := GameOver\<rparr>)"
    and "cinv (c\<lparr>c_pending := [StartRoundCb]\<rparr>)"
proof -
  note i = cinvD [OF inv]
  let ?a = "c\<lparr>c_pending := [], c_phase := GameOver\<rparr>"
  let ?b = "c\<lparr>c_pending := [StartRoundCb]\<rparr>"
  have "inv_phase ?a" "inv_elim ?a" "inv_cards ?a" "inv_cache ?a" "inv_tokens ?a" "inv_reveals ?a"
    "inv_pending ?a" "inv_bidder ?a" "inv_alive ?a" "inv_placed ?a" "inv_bid ?a" "inv_turn ?a"
    using i g by (simp_all add: inv_defs activePhase_def)
  then show "cinv ?a" by (simp add: cinv_def)
  have "inv_phase ?b" "inv_elim ?b" "inv_cards ?b" "inv_cache ?b" "inv_tokens ?b" "inv_reveals ?b"
    "inv_pending ?b" "inv_bidder ?b" "inv_alive ?b" "inv_placed ?b" "inv_bid ?b" "inv_turn ?b"
    using i g by (simp_all add: inv_defs activePhase_def noOtherBidder_def)
  then show "cinv ?b" by (simp add: cinv_def)
qed

lemma cinv_penalty_entry:
  assumes inv: "cinv c" and g: "c_phase c = FlipResult" "StartRoundCb \<notin> set (c_pending c)"
  shows "cinv (c\<lparr>c_pending := [], c_phase := Penalty, c_penalty := c_bidder c\<rparr>)"
proof -
  note i = cinvD [OF inv]
  let ?a = "c\<lparr>c_pending := [], c_phase := Penalty, c_penalty := c_bidder c\<rparr>"
  have "inv_phase ?a" "inv_elim ?a" "inv_cards ?a" "inv_cache ?a" "inv_tokens ?a" "inv_reveals ?a"
    "inv_pending ?a" "inv_bidder ?a" "inv_alive ?a" "inv_placed ?a" "inv_bid ?a" "inv_turn ?a"
    using i g by (simp_all add: inv_defs activePhase_def revealsOf_def)
  then show ?thesis by (simp add: cinv_def)
qed

lemma penalisedSeat_facts:
  "s_elim (penalisedSeat s r ch) \<longrightarrow> s_stack (penalisedSeat s r ch) = [] \<or> s_elim s"
  "\<not> s_elim (penalisedSeat s r ch) \<longrightarrow> s_cards (penalisedSeat s r ch) \<noteq> [] \<and> \<not> s_elim s"
  "s_elim s \<and> s_stack s = [] \<longrightarrow> s_stack (penalisedSeat s r ch) = []"
  by (simp_all add: penalisedSeat_def Let_def)

lemma cinv_removal:
  assumes inv: "cinv c" and g: "c_phase c = FlipResult \<or> c_phase c = Penalty"
    "StartRoundCb \<notin> set (c_pending c)" "l < length (c_seats c)"
  shows "cinv (a_removal (c\<lparr>c_pending := []\<rparr>) l rnd ch)"
proof -
  note i = cinvD [OF inv]
  let ?ss = "(c_seats c)[l := penalisedSeat (c_seats c ! l) rnd ch]"
  have st: "c_started c" using i(1) g by (auto simp: inv_phase_def)
  have 2: "\<forall>s \<in> set ?ss. s_elim s \<longrightarrow> s_stack s = []"
  proof
    fix s assume "s \<in> set ?ss"
    then show "s_elim s \<longrightarrow> s_stack s = []"
    proof (rule in_set_upd_cases)
      assume "s = penalisedSeat (c_seats c ! l) rnd ch"
      with i(2) g(3) penalisedSeat_facts(1,3) [of "c_seats c ! l" rnd ch] show ?thesis
        by (auto simp: inv_elim_def)
    next
      assume "s \<in> set (c_seats c)"
      with i(2) show ?thesis by (simp add: inv_elim_def)
    qed
  qed
  have 3: "\<forall>s \<in> set ?ss. \<not> s_elim s \<longrightarrow> s_cards s \<noteq> []"
  proof
    fix s assume "s \<in> set ?ss"
    then show "\<not> s_elim s \<longrightarrow> s_cards s \<noteq> []"
    proof (rule in_set_upd_cases)
      assume "s = penalisedSeat (c_seats c ! l) rnd ch"
      with penalisedSeat_facts(2) [of "c_seats c ! l" rnd ch] show ?thesis by simp
    next
      assume "s \<in> set (c_seats c)"
      with i(3) st show ?thesis by (simp add: inv_cards_def)
    qed
  qed
  show ?thesis
  proof (cases "length (filter (\<lambda>s. \<not> s_elim s) ?ss) \<le> 1")
    case True
    let ?a = "c\<lparr>c_pending := [], c_seats := ?ss, c_penalty := -1, c_phase := GameOver\<rparr>"
    from True have e: "a_removal (c\<lparr>c_pending := []\<rparr>) l rnd ch = ?a"
      by (simp add: a_removal_def Let_def)
    have "inv_phase ?a" "inv_elim ?a" "inv_cards ?a" "inv_cache ?a" "inv_tokens ?a" "inv_reveals ?a"
      "inv_pending ?a" "inv_bidder ?a" "inv_alive ?a" "inv_placed ?a" "inv_bid ?a" "inv_turn ?a"
      using st 2 3 by (simp_all add: inv_defs activePhase_def)
    then show ?thesis unfolding e by (simp add: cinv_def)
  next
    case False
    let ?b = "c\<lparr>c_pending := [StartRoundCb], c_seats := ?ss, c_penalty := -1\<rparr>"
    from False have e: "a_removal (c\<lparr>c_pending := []\<rparr>) l rnd ch = ?b"
      by (simp add: a_removal_def Let_def)
    have "inv_phase ?b" "inv_elim ?b" "inv_cards ?b" "inv_cache ?b" "inv_tokens ?b" "inv_reveals ?b"
      "inv_pending ?b" "inv_bidder ?b" "inv_alive ?b" "inv_placed ?b" "inv_bid ?b" "inv_turn ?b"
      using st 2 3 i(1) i(8) g False by (auto simp: inv_defs activePhase_def)
    then show ?thesis unfolding e by (simp add: cinv_def)
  qed
qed

lemma cinv_startRound_gen:
  assumes st: "c_started c" and el: "inv_elim c" and cs: "inv_cards c"
    and al: "2 \<le> length (filter (\<lambda>s. \<not> s_elim s) (c_seats c))"
    and pe: "c_pending c = []"
    and n: "seatAlive (a_startRound c first) first"
  shows "cinv (a_startRound c first)"
proof -
  let ?ss = "map resetSeat (c_seats c)"
  let ?c' = "c\<lparr>c_phase := Placing, c_bid := 0, c_bidder := -1, c_total := 0, c_first := True,
       c_reveals := [], c_seats := ?ss, c_current := first\<rparr>"
  have e: "a_startRound c first = ?c'" by (simp add: a_startRound_def)
  have stk: "\<forall>s \<in> set ?ss. s_stack s = []"
    using el by (auto simp: inv_elim_def resetSeat_def)
  have t0: "tableCount ?ss = 0" using stk by (rule tableCount_zero)
  have me: "map s_elim ?ss = map s_elim (c_seats c)"
    by (simp add: resetSeat_def comp_def)
  have 1: "inv_phase ?c'" using st by (simp add: inv_phase_def)
  have 2: "inv_elim ?c'" using stk by (simp add: inv_elim_def)
  have 3: "inv_cards ?c'" using cs st by (auto simp: inv_cards_def resetSeat_def)
  have 4: "inv_cache ?c'" using t0 by (simp add: inv_cache_def)
  have 5: "inv_tokens ?c'" by (auto simp: inv_tokens_def revealsOf_def resetSeat_def)
  have 6: "inv_reveals ?c'" by (simp add: inv_reveals_def)
  have 7: "inv_pending ?c'" using pe by (simp add: inv_pending_def)
  have 8: "inv_bidder ?c'" by (simp add: inv_bidder_def)
  have 9: "inv_alive ?c'" using al aliveCount_cong [OF me] by (simp add: inv_alive_def)
  have 10: "inv_placed ?c'" by (simp add: inv_placed_def)
  have 11: "inv_bid ?c'" by (simp add: inv_bid_def)
  have 12: "inv_turn ?c'" using n by (simp add: inv_turn_def e)
  from 1 2 3 4 5 6 7 8 9 10 11 12 show ?thesis unfolding e by (simp add: cinv_def)
qed

lemma cinv_startRound:
  assumes inv: "cinv c" and g: "StartRoundCb \<in> set (c_pending c)"
    and n: "seatAlive (a_startRound (c\<lparr>c_pending := []\<rparr>) first) first"
  shows "cinv (a_startRound (c\<lparr>c_pending := []\<rparr>) first)"
proof -
  note i = cinvD [OF inv]
  from i(7) g have ph: "c_phase c = FlipResult \<or> c_phase c = Penalty"
    by (auto simp: inv_pending_def)
  with i(1) have st: "c_started c" by (auto simp: inv_phase_def)
  with i(9) ph have al: "2 \<le> length (filter (\<lambda>s. \<not> s_elim s) (c_seats c))"
    by (auto simp: inv_alive_def)
  show ?thesis
    using st i(2) i(3) al n
    by (intro cinv_startRound_gen) (simp_all add: inv_elim_def inv_cards_def)
qed

lemma cinv_startGame:
  assumes inv: "cinv c" and g: "\<not> c_started c" "2 \<le> length (c_seats c)"
    and n: "seatAlive (a_startGame c first) first"
  shows "cinv (a_startGame c first)"
proof -
  note i = cinvD [OF inv]
  let ?ss = "map (\<lambda>s. s\<lparr>s_cards := [Rose, Rose, Rose, Skull], s_elim := False\<rparr>) (c_seats c)"
  let ?c0 = "c\<lparr>c_started := True, c_seats := ?ss\<rparr>"
  from i(1) i(7) g have pe: "c_pending c = []" by (simp add: inv_phase_def inv_pending_def)
  have f: "filter (\<lambda>s. \<not> s_elim s) ?ss = ?ss" by (simp add: filter_map comp_def)
  have al: "2 \<le> length (filter (\<lambda>s. \<not> s_elim s) (c_seats ?c0))"
    using g unfolding core.simps f by simp
  show ?thesis
    unfolding a_startGame_def
    using pe al n
    by (intro cinv_startRound_gen) (simp_all add: inv_elim_def inv_cards_def a_startGame_def)
qed

lemma cinv_lobby_seats:
  assumes inv: "cinv c" and g: "\<not> c_started c" and e: "\<forall>s \<in> set ss. s_elim s \<longrightarrow> s_stack s = []"
  shows "cinv (c\<lparr>c_seats := ss\<rparr>)"
proof -
  note i = cinvD [OF inv]
  from i(1) g have ph: "c_phase c = NoPhase" by (simp add: inv_phase_def)
  let ?a = "c\<lparr>c_seats := ss\<rparr>"
  have "inv_phase ?a" "inv_elim ?a" "inv_cards ?a" "inv_cache ?a" "inv_tokens ?a" "inv_reveals ?a"
    "inv_pending ?a" "inv_bidder ?a" "inv_alive ?a" "inv_placed ?a" "inv_bid ?a" "inv_turn ?a"
    using i g ph e by (simp_all add: inv_defs activePhase_def)
  then show ?thesis by (simp add: cinv_def)
qed

lemma coreOf_fields [simp]:
  "c_seats (coreOf w) = map seatOf (players w)" "c_started (coreOf w) = started w"
  "c_phase (coreOf w) = phase w" "c_current (coreOf w) = currentPlayer w"
  "c_bid (coreOf w) = currentBid w" "c_bidder (coreOf w) = highestBidder w"
  "c_total (coreOf w) = totalCoastersOnTable w" "c_first (coreOf w) = firstPlacement w"
  "c_penalty (coreOf w) = penaltyPlayer w"
  "c_reveals (coreOf w) = map rc_playerIndex (revealedCards w)"
  "c_pending (coreOf w) = filter isResolution (map callback (timers w))"
  by (simp_all add: coreOf_def)

lemma handlePlace_ginv:
  assumes inv: "ginv w" and r: "handlePlace w i k = Some w'"
  shows "ginv w'"
proof (cases "phase w = Placing \<and> currentPlayer w = i")
  case False
  with r inv show ?thesis by (auto simp: handlePlace_def split: if_splits)
next
  case True
  with r obtain p where p: "player_at w i = Some p"
    by (cases "player_at w i") (auto simp: handlePlace_def)
  show ?thesis
  proof (cases "0 \<le> k \<and> k < int (length (hand p))")
    case False
    with r True p inv show ?thesis by (auto simp: handlePlace_def split: if_splits)
  next
    case ok: True
    from inv have t: "timersOk w" and c: "cinv (coreOf w)" by (simp_all add: ginv_def)
    from handlePlace_core [OF t r] True p ok obtain nxt where
      n: "coreOf w' = a_place (coreOf w) (nat i) (nat k) nxt" "seatAlive (coreOf w') nxt"
      by blast
    from player_at_SomeD [OF p] player_at_seat [OF p] True ok
    have "cinv (a_place (coreOf w) (nat i) (nat k) nxt)"
      using n by (intro cinv_place [OF c]) auto
    with n timersOk_handlePlace [OF t r] show ?thesis by (simp add: ginv_def)
  qed
qed

lemma checkBiddingEnd_ginv:
  assumes t: "timersOk w" and p: "precheck (coreOf w)" and r: "checkBiddingEnd w = Some w'"
  shows "ginv w'"
  using checkBiddingEnd_core [OF t r] cinv_check [OF p] timersOk_checkBiddingEnd [OF t r]
  by (simp add: ginv_def)

lemma handleStartBid_ginv:
  assumes inv: "ginv w" and r: "handleStartBid w i amount = Some w'"
  shows "ginv w'"
proof (cases "phase w = Placing \<and> currentPlayer w = i \<and> \<not> firstPlacement w")
  case False
  with r inv show ?thesis by (auto simp: handleStartBid_def split: if_splits)
next
  case True
  from inv have t: "timersOk w" and c: "cinv (coreOf w)" by (simp_all add: ginv_def)
  from r True obtain p where p: "player_at w i = Some p"
    by (cases "player_at w i") (auto simp: handleStartBid_def)
  from True have e: "coreOf w' = a_check (a_open (coreOf w) i amount)"
    by (intro handleStartBid_core [OF t r]) simp_all
  from True player_at_SomeD [OF p] have "precheck (a_open (coreOf w) i amount)"
    by (intro precheck_open [OF c]) simp_all
  then have "cinv (a_check (a_open (coreOf w) i amount))" by (rule cinv_check)
  with e timersOk_handleStartBid [OF t r] show ?thesis by (simp add: ginv_def)
qed

lemma handleRaiseBid_ginv:
  assumes inv: "ginv w" and r: "handleRaiseBid w i amount = Some w'"
  shows "ginv w'"
proof -
  from inv have t: "timersOk w" and c: "cinv (coreOf w)" by (simp_all add: ginv_def)
  show ?thesis
  proof (cases "phase w = Bidding")
    case False
    with r inv show ?thesis by (simp add: handleRaiseBid_def)
  next
    case ph: True
    with r obtain p where p: "player_at w i = Some p"
      by (cases "player_at w i") (auto simp: handleRaiseBid_def)
    show ?thesis
    proof (cases "\<not> passed p \<and> \<not> eliminated p \<and> i \<noteq> highestBidder w \<and>
                  currentBid w < amount \<and> amount \<le> countOnTable w")
      case True
      have e: "coreOf w' = a_check (a_raise (coreOf w) i amount)"
        using True by (intro handleRaiseBid_core [OF t r ph p]) auto
      from True ph player_at_SomeD [OF p] player_at_seat [OF p]
      have "precheck (a_raise (coreOf w) i amount)"
        by (intro precheck_raise [OF c]) (simp_all add: countOnTable_seats)
      then have "cinv (a_check (a_raise (coreOf w) i amount))" by (rule cinv_check)
      with e timersOk_handleRaiseBid [OF t r] show ?thesis by (simp add: ginv_def)
    next
      case False
      with ph p have "handleRaiseBid w i amount = Some w \<or>
         handleRaiseBid w i amount = Some (w\<lparr>totalCoastersOnTable := countOnTable w\<rparr>)"
        by (intro handleRaiseBid_rejected) auto
      with r have "w' = w \<or> w' = w\<lparr>totalCoastersOnTable := countOnTable w\<rparr>" by auto
      moreover have "coreOf (w\<lparr>totalCoastersOnTable := countOnTable w\<rparr>)
                     = (coreOf w)\<lparr>c_total := tableCount (c_seats (coreOf w))\<rparr>"
        by (simp add: coreOf_def countOnTable_seats)
      ultimately show ?thesis
        using inv t cinv_total [OF c] ph by (auto simp: ginv_def)
    qed
  qed
qed

lemma handlePass_ginv:
  assumes inv: "ginv w" and r: "handlePass w i = Some w'"
  shows "ginv w'"
proof -
  from inv have t: "timersOk w" and c: "cinv (coreOf w)" by (simp_all add: ginv_def)
  show ?thesis
  proof (cases "phase w = Bidding")
    case False
    with r inv show ?thesis by (simp add: handlePass_def)
  next
    case ph: True
    with r obtain p where p: "player_at w i = Some p"
      by (cases "player_at w i") (auto simp: handlePass_def)
    show ?thesis
    proof (cases "\<not> passed p \<and> \<not> eliminated p \<and> i \<noteq> highestBidder w")
      case False
      with r ph p inv show ?thesis by (auto simp: handlePass_def split: if_splits)
    next
      case True
      have e: "coreOf w' = a_check (a_pass (coreOf w) (nat i))"
        using True by (intro handlePass_core [OF t r ph p]) auto
      from ph player_at_SomeD [OF p] have "precheck (a_pass (coreOf w) (nat i))"
        by (intro precheck_pass [OF c]) simp_all
      then have "cinv (a_check (a_pass (coreOf w) (nat i)))" by (rule cinv_check)
      with e timersOk_handlePass [OF t r] show ?thesis by (simp add: ginv_def)
    qed
  qed
qed

lemma handleFlip_rejected:
  "player_at w f \<noteq> None \<Longrightarrow> \<not> flipAllowed w f t \<Longrightarrow> handleFlip w f t = Some w"
  by (auto simp: flipAllowed_def handleFlip_def split: option.splits)

lemma handleFlip_ginv:
  assumes inv: "ginv w" and r: "handleFlip w f t = Some w'"
  shows "ginv w'"
proof (cases "flipAllowed w f t")
  case False
  show ?thesis
  proof (cases "player_at w f")
    case (Some p)
    with False have "handleFlip w f t = Some w" by (intro handleFlip_rejected) auto
    with r inv show ?thesis by simp
  next
    case None
    with r have "w' = w"
      by (auto simp: handleFlip_def split: if_splits option.splits)
    with inv show ?thesis by simp
  qed
next
  case True
  from inv have tk: "timersOk w" and c: "cinv (coreOf w)" by (simp_all add: ginv_def)
  from True obtain target where tg: "player_at w t = Some target"
    and a: "phase w = Flipping" "f = highestBidder w" "\<not> eliminated target" "stack target \<noteq> []"
    by (auto simp: flipAllowed_def split: option.splits)
  note d = player_at_SomeD [OF tg] player_at_seat [OF tg]
  have g: "c_phase (coreOf w) = Flipping" "nat t < length (c_seats (coreOf w))"
    "s_stack (c_seats (coreOf w) ! nat t) \<noteq> []"
    using a d by simp_all
  have p0: "c_pending (coreOf w) = []"
    using cinvD(7) [OF c] a by (simp add: inv_pending_def)
  from d have tn: "int (nat t) = t" by simp
  have same: "(a_flipped (coreOf w) (nat t))\<lparr>c_phase := Flipping, c_pending := []\<rparr>
              = a_flipped (coreOf w) (nat t)"
    using g p0 by (simp add: a_flipped_def Let_def)
  from handleFlip_core [OF tk r True] p0 a
  have "coreOf w' = (a_flipped (coreOf w) (nat t))\<lparr>c_phase := FlipResult,
                       c_pending := [PenalizeCb (c_bidder (coreOf w)) t]\<rparr> \<or>
        coreOf w' = (a_flipped (coreOf w) (nat t))\<lparr>c_phase := FlipResult,
                       c_pending := [ChallengeSuccessCb (c_bidder (coreOf w))]\<rparr> \<or>
        coreOf w' = (a_flipped (coreOf w) (nat t))\<lparr>c_phase := Flipping, c_pending := []\<rparr>"
    by (auto simp: same split: if_splits)
  then have "cinv (coreOf w')"
    using cinv_flip [OF c g, of Flipping "[]"]
      cinv_flip [OF c g, of FlipResult "[PenalizeCb (c_bidder (coreOf w)) t]"]
      cinv_flip [OF c g, of FlipResult "[ChallengeSuccessCb (c_bidder (coreOf w))]"] tn
    by auto
  with timersOk_handleFlip [OF tk r] show ?thesis by (simp add: ginv_def)
qed

lemma removal_ginv:
  assumes tk: "timersOk w" and c0: "cinv c" and e: "coreOf w = c\<lparr>c_pending := []\<rparr>"
    and g: "c_phase c = FlipResult \<or> c_phase c = Penalty" "StartRoundCb \<notin> set (c_pending c)"
    and r: "doCardRemoval w rnd l ch = Some w'"
  shows "ginv w'"
proof -
  from r obtain p where p: "player_at w l = Some p"
    by (auto simp: doCardRemoval_alt split: option.splits)
  from player_at_SomeD [OF p] e have "nat l < length (c_seats c)"
    by (metis coreOf_fields(1) core.select_convs(1) core.surjective core.update_convs(11) length_map)
  with g have "cinv (a_removal (c\<lparr>c_pending := []\<rparr>) (nat l) rnd ch)"
    by (intro cinv_removal [OF c0]) simp_all
  with doCardRemoval_core [OF tk r] e timersOk_doCardRemoval [OF tk r] show ?thesis
    by (simp add: ginv_def)
qed

lemma handlePenaltyDiscard_ginv:
  assumes inv: "ginv w" and r: "handlePenaltyDiscard w i k = Some w'"
  shows "ginv w'"
proof (cases "phase w = Penalty \<and> penaltyPlayer w = i")
  case False
  with r inv show ?thesis by (auto simp: handlePenaltyDiscard_def split: if_splits)
next
  case True
  from inv have tk: "timersOk w" and c: "cinv (coreOf w)" by (simp_all add: ginv_def)
  from r True obtain p where p: "player_at w i = Some p"
    by (cases "player_at w i") (auto simp: handlePenaltyDiscard_def)
  show ?thesis
  proof (cases "0 \<le> k \<and> k < int (length (cards p))")
    case False
    with r True p inv show ?thesis by (auto simp: handlePenaltyDiscard_def split: if_splits)
  next
    case ok: True
    with r True p have rr: "doCardRemoval w 0 i k = Some w'"
      by (simp add: handlePenaltyDiscard_def)
    from player_at_SomeD [OF p] True cinvD(7) [OF c]
    have pe: "c_pending (coreOf w) = []"
      by (auto simp: inv_pending_def)
    then have "coreOf w = (coreOf w)\<lparr>c_pending := []\<rparr>"
      by (metis core.surjective core.update_convs(11) core.select_convs(11))
    with pe True show ?thesis
      by (intro removal_ginv [OF tk c _ _ _ rr]) simp_all
  qed
qed

lemma handle_inj_timers:
  "distinct (map handle ts) \<Longrightarrow> t \<in> set ts \<Longrightarrow> x \<in> set ts \<Longrightarrow> handle x = handle t \<Longrightarrow> x = t"
  by (induction ts) (auto simp: image_iff)

lemma pending_remove_other:
  assumes d: "distinct (map handle ts)" and t: "t \<in> set ts"
      and n: "\<not> isResolution (callback t)"
  shows "filter isResolution (map callback (filter (\<lambda>u. handle u \<noteq> handle t) ts)) =
         filter isResolution (map callback ts)"
proof -
  have "\<forall>x \<in> set ts. handle x = handle t \<longrightarrow> \<not> isResolution (callback x)"
    using handle_inj_timers [OF d t] n by blast
  then show ?thesis by (induction ts) auto
qed

lemma filter_handle_id:
  "handle t \<notin> handle ` set xs \<Longrightarrow> filter (\<lambda>u. handle u \<noteq> handle t) xs = xs"
  by (induction xs) auto

lemma pending_remove_single:
  "distinct (map handle ts) \<Longrightarrow> t \<in> set ts \<Longrightarrow> isResolution (callback t) \<Longrightarrow>
   filter isResolution (map callback ts) = [cb] \<Longrightarrow>
   filter isResolution (map callback (filter (\<lambda>u. handle u \<noteq> handle t) ts)) = []"
proof (induction ts)
  case Nil
  then show ?case by simp
next
  case (Cons x xs)
  show ?case
  proof (cases "x = t")
    case True
    with Cons.prems have "handle t \<notin> handle ` set xs" by simp
    then have "filter (\<lambda>u. handle u \<noteq> handle t) xs = xs" by (rule filter_handle_id)
    with True Cons.prems show ?thesis by simp
  next
    case False
    with Cons.prems have tx: "t \<in> set xs" and hx: "handle x \<noteq> handle t" by auto
    from tx Cons.prems(3) have ne: "filter isResolution (map callback xs) \<noteq> []"
      by (auto simp: filter_empty_conv)
    with Cons.prems(4) have nx: "\<not> isResolution (callback x)"
      and e: "filter isResolution (map callback xs) = [cb]"
      by (auto split: if_splits)
    from Cons.prems(1) have "distinct (map handle xs)" by simp
    from Cons.IH [OF this tx Cons.prems(3) e] hx nx show ?thesis by simp
  qed
qed

lemma pending_le1:
  assumes "cinv c"
  shows "c_pending c = [] \<or> (\<exists>cb. c_pending c = [cb])"
  using cinvD(7) [OF assms]
  by (cases "c_phase c") (auto simp: inv_pending_def)

text \<open>The world in which a fired callback runs: its entry has left the table.\<close>

lemma fired_world:
  assumes inv: "ginv w" and t: "t \<in> set (timers w)"
  defines "w1 \<equiv> w\<lparr>timers := filter (\<lambda>u. handle u \<noteq> handle t) (timers w)\<rparr>"
  shows "\<not> isResolution (callback t) \<Longrightarrow> coreOf w1 = coreOf w"
    and "isResolution (callback t) \<Longrightarrow>
           coreOf w1 = (coreOf w)\<lparr>c_pending := []\<rparr> \<and> c_pending (coreOf w) = [callback t]"
    and "\<not> isDeadline (callback t) \<Longrightarrow> timersOk w1"
    and "isDeadline (callback t) \<Longrightarrow> timersOk (w1\<lparr>turnTimer := None, turnDeadline := 0\<rparr>)"
proof -
  from inv have tk: "timersOk w" and c: "cinv (coreOf w)" by (simp_all add: ginv_def)
  from tk have d: "distinct (map handle (timers w))" by (simp add: timersOk_def schedOk_def)
  show "\<not> isResolution (callback t) \<Longrightarrow> coreOf w1 = coreOf w"
    using pending_remove_other [OF d t] by (simp add: coreOf_def w1_def)
  show "isResolution (callback t) \<Longrightarrow>
           coreOf w1 = (coreOf w)\<lparr>c_pending := []\<rparr> \<and> c_pending (coreOf w) = [callback t]"
  proof -
    assume res: "isResolution (callback t)"
    define ps where "ps = filter isResolution (map callback (timers w))"
    have pe: "c_pending (coreOf w) = ps" by (simp add: coreOf_def ps_def)
    from res t have m: "callback t \<in> set ps" by (auto simp: ps_def)
    with pending_le1 [OF c] pe obtain cb where cb: "ps = [cb]"
      by (cases ps) auto
    with m have e: "cb = callback t" by simp
    from cb have "filter isResolution (map callback (timers w)) = [cb]" by (simp add: ps_def)
    from pending_remove_single [OF d t res this]
    have "filter isResolution (map callback (timers w1)) = []"
      by (simp add: w1_def)
    with cb e pe show ?thesis by (simp add: coreOf_def w1_def ps_def)
  qed
  show "\<not> isDeadline (callback t) \<Longrightarrow> timersOk w1"
    using tk t unfolding timersOk_def w1_def
    by (simp add: schedOk_fire_other)
  show "isDeadline (callback t) \<Longrightarrow> timersOk (w1\<lparr>turnTimer := None, turnDeadline := 0\<rparr>)"
    using tk t unfolding timersOk_def w1_def
    by (simp add: schedOk_fire_deadline)
qed

lemma runDeadlineCallback_ginv:
  assumes inv: "ginv w" and r: "runDeadlineCallback w cb = Some w'"
  shows "ginv w'"
proof (cases cb)
  case (RoundStartExpiry fp)
  with r inv show ?thesis
    by (auto split: if_splits option.splits dest: handlePlace_ginv)
next
  case (PlacingExpiry n)
  with r inv show ?thesis
    by (auto split: if_splits option.splits dest: handlePlace_ginv handleStartBid_ginv)
next
  case BidExpiry
  show ?thesis
  proof (cases "phase w = Bidding")
    case False
    with r inv BidExpiry show ?thesis by simp
  next
    case True
    from inv have tk: "timersOk w" and c: "cinv (coreOf w)" by (simp_all add: ginv_def)
    from r True BidExpiry have rr: "checkBiddingEnd (autoPass w) = Some w'" by simp
    from True have "precheck (a_autoPass (coreOf w))"
      by (intro precheck_autoPass [OF c]) simp
    then have "precheck (coreOf (autoPass w))" by (simp add: autoPass_core)
    with tk rr show ?thesis by (intro checkBiddingEnd_ginv [of "autoPass w"]) simp_all
  qed
qed

lemma fire_ginv:
  assumes inv: "ginv w" and r: "fire w h rnd = Some w'"
  shows "ginv w'"
proof (cases "find (\<lambda>t. handle t = h) (timers w)")
  case None
  with r inv show ?thesis by (simp add: fire_def)
next
  case (Some t)
  then have t: "t \<in> set (timers w)" and h: "handle t = h" by (auto dest: find_handle_SomeD)
  let ?w1 = "w\<lparr>timers := filter (\<lambda>u. handle u \<noteq> handle t) (timers w)\<rparr>"
  note fw = fired_world [OF inv t]
  from inv have c: "cinv (coreOf w)" by (simp add: ginv_def)
  show ?thesis
  proof (cases "now w < due t")
    case True
    with r inv Some show ?thesis by (simp add: fire_def)
  next
    case False
    with r Some h have run: "runCallback ?w1 rnd (callback t) = Some w'"
      by (simp add: fire_def)
    show ?thesis
    proof (cases "callback t")
      case (Deadline cb)
      with fw(1) fw(4) have "ginv (?w1\<lparr>turnTimer := None, turnDeadline := 0\<rparr>)"
        using c by (simp add: ginv_def coreOf_def)
      with run Deadline show ?thesis
        by (auto dest: runDeadlineCallback_ginv)
    next
      case (ForcedBid n)
      with fw(1) fw(3) have "ginv ?w1" using c by (simp add: ginv_def)
      with run ForcedBid show ?thesis
        by (auto split: if_splits dest: handleStartBid_ginv)
    next
      case (PenalizeCb f tg)
      with fw(2) fw(3) have e: "coreOf ?w1 = (coreOf w)\<lparr>c_pending := []\<rparr>"
        and p: "c_pending (coreOf w) = [PenalizeCb f tg]" and tk: "timersOk ?w1"
        by simp_all
      from cinvD(7) [OF c] p have ph: "phase w = FlipResult" and f: "f = highestBidder w"
        by (cases "phase w"; auto simp: inv_pending_def)+
      from run PenalizeCb have rr: "penalize ?w1 rnd f tg = Some w'" by simp
      have sr: "StartRoundCb \<notin> set (c_pending (coreOf w))" using p by simp
      show ?thesis
      proof (cases "f = tg \<and> length (s_cards (c_seats (coreOf ?w1) ! nat f)) > 1")
        case True
        then have "a_penalize (coreOf ?w1) rnd f tg = (coreOf ?w1)\<lparr>c_phase := Penalty, c_penalty := f\<rparr>"
          unfolding a_penalize_def by (rule if_P)
        with penalize_core [OF tk rr] e f
        have "coreOf w' = (coreOf w)\<lparr>c_pending := [], c_phase := Penalty,
                                      c_penalty := c_bidder (coreOf w)\<rparr>"
          by simp
        with cinv_penalty_entry [OF c _ sr] ph timersOk_penalize [OF tk rr] show ?thesis
          by (simp add: ginv_def)
      next
        case False
        with rr have "doCardRemoval (?w1\<lparr>nextRoundStarter := (if f = tg then f else tg)\<rparr>) rnd f (-1) = Some w'"
          by (auto simp: penalize_def Let_def player_at_def split: option.splits if_splits)
        moreover have "coreOf (?w1\<lparr>nextRoundStarter := (if f = tg then f else tg)\<rparr>)
                       = (coreOf w)\<lparr>c_pending := []\<rparr>"
          using e by (simp add: coreOf_def)
        ultimately show ?thesis
          using tk ph sr by (intro removal_ginv [OF _ c]) simp_all
      qed
    next
      case (ChallengeSuccessCb f)
      with fw(2) fw(3) have e: "coreOf ?w1 = (coreOf w)\<lparr>c_pending := []\<rparr>"
        and p: "c_pending (coreOf w) = [ChallengeSuccessCb f]" and tk: "timersOk ?w1"
        by simp_all
      from cinvD(7) [OF c] p have ph: "phase w = FlipResult"
        by (cases "phase w") (auto simp: inv_pending_def)
      from run ChallengeSuccessCb have rr: "challengeSuccess ?w1 f = Some w'" by simp
      have sr: "StartRoundCb \<notin> set (c_pending (coreOf w))" using p by simp
      from challengeSuccess_core [OF tk rr] e
      have "coreOf w' = (coreOf w)\<lparr>c_pending := [], c_phase := GameOver\<rparr> \<or>
            coreOf w' = (coreOf w)\<lparr>c_pending := [StartRoundCb]\<rparr>"
        by auto
      with cinv_success [OF c _ sr] ph timersOk_challengeSuccess [OF tk rr] show ?thesis
        by (auto simp: ginv_def)
    next
      case StartRoundCb
      with fw(2) fw(3) have e: "coreOf ?w1 = (coreOf w)\<lparr>c_pending := []\<rparr>"
        and p: "c_pending (coreOf w) = [StartRoundCb]" and tk: "timersOk ?w1"
        by simp_all
      from run StartRoundCb have rr: "startRound ?w1 = Some w'" by simp
      from startRound_core [OF tk rr] e obtain first where
        f: "coreOf w' = a_startRound ((coreOf w)\<lparr>c_pending := []\<rparr>) first"
           "seatAlive (coreOf w') first"
        by auto
      from p have "StartRoundCb \<in> set (c_pending (coreOf w))" by simp
      from cinv_startRound [OF c this] f timersOk_startRound [OF tk rr] show ?thesis
        by (simp add: ginv_def)
    qed
  qed
qed

lemma ginv_outbox [simp]: "ginv (w\<lparr>outbox := ob\<rparr>) = ginv w"
  by (simp add: ginv_def coreOf_def timersOk_def)

lemma ginv_now [simp]: "ginv (w\<lparr>now := t\<rparr>) = ginv w"
  by (simp add: ginv_def coreOf_def timersOk_def)

lemma ginv_core_eq:
  "ginv w \<Longrightarrow> timersOk w' \<Longrightarrow> coreOf w' = coreOf w \<Longrightarrow> ginv w'"
  by (simp add: ginv_def)

lemma join_ginv:
  assumes inv: "ginv w" and r: "joinFound w c sid nm = Some (reply, w')"
  shows "ginv w'"
proof -
  from inv have tk: "timersOk w" and ci: "cinv (coreOf w)" by (simp_all add: ginv_def)
  note tk' = timersOk_joinFound [OF tk r]
  from joinFound_core [OF r] show ?thesis
  proof
    assume "coreOf w' = coreOf w"
    with inv tk' show ?thesis by (rule ginv_core_eq)
  next
    assume a: "\<not> started w \<and> coreOf w' = (coreOf w)\<lparr>c_seats := c_seats (coreOf w) @ [emptySeat]\<rparr>"
    have "\<forall>s \<in> set (c_seats (coreOf w) @ [emptySeat]). s_elim s \<longrightarrow> s_stack s = []"
      using cinvD(2) [OF ci] by (auto simp: inv_elim_def emptySeat_def)
    with cinv_lobby_seats [OF ci] a tk' show ?thesis by (simp add: ginv_def)
  qed
qed

lemma on_startGame_ginv:
  assumes inv: "ginv w" and r: "on_startGame w sid = Some w'"
  shows "ginv w'"
proof (cases "\<not> inRegistry w \<or> started w \<or> sid \<noteq> hostId w \<or> length (players w) < 2")
  case True
  with r inv show ?thesis by (auto simp: on_startGame_def split: if_splits)
next
  case False
  with r have rr: "startGame w = Some w'" by (simp add: on_startGame_def)
  from inv have tk: "timersOk w" and ci: "cinv (coreOf w)" by (simp_all add: ginv_def)
  from startGame_core [OF tk rr] obtain first where
    f: "coreOf w' = a_startGame (coreOf w) first" "seatAlive (coreOf w') first" by auto
  from False have "\<not> c_started (coreOf w)" "2 \<le> length (c_seats (coreOf w))" by simp_all
  from cinv_startGame [OF ci this] f timersOk_startGame [OF tk rr] show ?thesis
    by (simp add: ginv_def)
qed

lemma on_disconnect_ginv:
  assumes inv: "ginv w" and r: "on_disconnect w sid = Some w'"
  shows "ginv w'"
proof -
  from inv have tk: "timersOk w" and ci: "cinv (coreOf w)" by (simp_all add: ginv_def)
  from r have "dispatch (Disconnect sid) w = Some w'" by simp
  with tk have tk': "timersOk w'" by (rule timersOk_dispatch)
  from on_disconnect_core [OF r] show ?thesis
  proof
    assume "coreOf w' = coreOf w"
    with inv tk' show ?thesis by (rule ginv_core_eq)
  next
    assume "\<not> started w \<and> (\<exists>k. coreOf w' =
             (coreOf w)\<lparr>c_seats := take k (c_seats (coreOf w)) @ drop (k + 1) (c_seats (coreOf w))\<rparr>)"
    then obtain k where ns: "\<not> started w"
      and e: "coreOf w' = (coreOf w)\<lparr>c_seats := take k (c_seats (coreOf w)) @ drop (k + 1) (c_seats (coreOf w))\<rparr>"
      by auto
    have "set (take k (c_seats (coreOf w)) @ drop (k + 1) (c_seats (coreOf w)))
            \<subseteq> set (c_seats (coreOf w))"
      using set_take_subset [of k "c_seats (coreOf w)"] set_drop_subset [of "k + 1" "c_seats (coreOf w)"]
      by (simp del: coreOf_fields)
    then have "\<forall>s \<in> set (take k (c_seats (coreOf w)) @ drop (k + 1) (c_seats (coreOf w))).
            s_elim s \<longrightarrow> s_stack s = []"
      using cinvD(2) [OF ci] unfolding inv_elim_def by blast
    with cinv_lobby_seats [OF ci] ns e tk' show ?thesis by (simp add: ginv_def)
  qed
qed

lemma dispatch_ginv:
  assumes inv: "ginv w" and n: "\<not> isPlayAgain e" and r: "dispatch e w = Some w'"
  shows "ginv w'"
proof (cases e)
  case (JoinRoom sid dname)
  with r inv show ?thesis by (auto split: if_splits dest: join_ginv)
next
  case (StartGame sid)
  with r inv show ?thesis by (auto dest: on_startGame_ginv)
next
  case (PlaceCard sid k)
  with r inv show ?thesis
    by (auto simp: on_placeCard_def Let_def split: if_splits dest: handlePlace_ginv)
next
  case (StartBid sid k)
  with r inv show ?thesis
    by (auto simp: on_startBid_def Let_def split: if_splits dest: handleStartBid_ginv)
next
  case (RaiseBid sid k)
  with r inv show ?thesis
    by (auto simp: on_raiseBid_def Let_def split: if_splits dest: handleRaiseBid_ginv)
next
  case (Pass sid)
  with r inv show ?thesis
    by (auto simp: on_pass_def Let_def split: if_splits dest: handlePass_ginv)
next
  case (FlipCoaster sid k)
  with r inv show ?thesis
    by (auto simp: on_flipCoaster_def Let_def split: if_splits dest: handleFlip_ginv)
next
  case (PenaltyDiscard sid k)
  with r inv show ?thesis
    by (auto simp: on_penaltyDiscard_def Let_def split: if_splits dest: handlePenaltyDiscard_ginv)
next
  case (ChatMessage sid msg)
  with r have "on_chatMessage w sid msg = Some w'" by simp
  from on_chatMessage_core [OF this] inv timersOk_dispatch [OF _ r] show ?thesis
    by (simp add: ginv_def)
next
  case (DougLose sid)
  with r have "on_dougLose w sid = Some w'" by simp
  from on_dougLose_core [OF this] inv timersOk_dispatch [OF _ r] show ?thesis
    by (simp add: ginv_def)
next
  case (PlayAgain sid)
  with n show ?thesis by simp
next
  case (Disconnect sid)
  with r inv show ?thesis by (auto dest: on_disconnect_ginv)
next
  case (Fire h rnd)
  with r inv show ?thesis by (auto dest: fire_ginv)
next
  case (Tick d)
  with r inv show ?thesis by auto
qed

lemma step_ginv: "ginv w \<Longrightarrow> \<not> isPlayAgain e \<Longrightarrow> step e w = Some w' \<Longrightarrow> ginv w'"
  unfolding step_def using dispatch_ginv [of "w\<lparr>outbox := []\<rparr>" e w'] by simp

lemma quiescent_pending: "quiescent w \<longleftrightarrow> c_pending (coreOf w) = []"
  by (auto simp: quiescent_def list_all_iff filter_empty_conv)

lemma on_playAgain_core:
  assumes "on_playAgain w sid = Some w'"
  shows "w' = w \<or>
         coreOf w' = (coreOf w)\<lparr>c_started := False, c_phase := NoPhase, c_reveals := [],
            c_seats := map (\<lambda>s. s\<lparr>s_cards := [], s_hand := [], s_stack := [], s_elim := False,
                                   s_passed := False\<rparr>) (c_seats (coreOf w))\<rparr>"
  using assms
  by (auto simp: on_playAgain_def Let_def coreOf_def seatOf_def comp_def split: if_splits)

lemma cinv_reset:
  assumes inv: "cinv c" and q: "c_pending c = []"
  shows "cinv (c\<lparr>c_started := False, c_phase := NoPhase, c_reveals := [],
            c_seats := map (\<lambda>s. s\<lparr>s_cards := [], s_hand := [], s_stack := [], s_elim := False,
                                   s_passed := False\<rparr>) (c_seats c)\<rparr>)"
  using q by (simp add: cinv_def inv_defs activePhase_def)

lemma on_playAgain_ginv:
  assumes inv: "ginv w" and q: "quiescent w" and r: "on_playAgain w sid = Some w'"
  shows "ginv w'"
proof -
  from inv have tk: "timersOk w" and c: "cinv (coreOf w)" by (simp_all add: ginv_def)
  from r have "dispatch (PlayAgain sid) w = Some w'" by simp
  with tk have tk': "timersOk w'" by (rule timersOk_dispatch)
  from q have p: "c_pending (coreOf w) = []" by (simp only: quiescent_pending)
  from on_playAgain_core [OF r] show ?thesis
  proof
    assume "w' = w"
    with inv show ?thesis by simp
  next
    assume e: "coreOf w' = (coreOf w)\<lparr>c_started := False, c_phase := NoPhase, c_reveals := [],
            c_seats := map (\<lambda>s. s\<lparr>s_cards := [], s_hand := [], s_stack := [], s_elim := False,
                                   s_passed := False\<rparr>) (c_seats (coreOf w))\<rparr>"
    from cinv_reset [OF c p] tk' show ?thesis unfolding ginv_def e by simp
  qed
qed

lemma dispatch_ginv_gen:
  assumes inv: "ginv w" and n: "isPlayAgain e \<longrightarrow> quiescent w" and r: "dispatch e w = Some w'"
  shows "ginv w'"
proof (cases "isPlayAgain e")
  case False
  from dispatch_ginv [OF inv False r] show ?thesis .
next
  case True
  then obtain sid where e: "e = PlayAgain sid" by (cases e) auto
  with r have "on_playAgain w sid = Some w'" by simp
  from on_playAgain_ginv [OF inv _ this] n True show ?thesis by simp
qed

lemma quiescent_outbox [simp]: "quiescent (w\<lparr>outbox := ob\<rparr>) = quiescent w"
  by (simp add: quiescent_def)

lemma step_ginv_gen:
  "ginv w \<Longrightarrow> isPlayAgain e \<longrightarrow> quiescent w \<Longrightarrow> step e w = Some w' \<Longrightarrow> ginv w'"
  unfolding step_def using dispatch_ginv_gen [of "w\<lparr>outbox := []\<rparr>" e w'] by simp

lemma created_core:
  "on_createRoom c sid nm t = Some w \<Longrightarrow>
   coreOf w = \<lparr>c_seats = [emptySeat], c_started = False, c_phase = NoPhase, c_current = 0,
               c_bid = 0, c_bidder = -1, c_total = 0, c_first = True, c_penalty = -1,
               c_reveals = [], c_pending = []\<rparr>"
  by (auto simp: on_createRoom_def Let_def registered_def newRoom_def coreOf_def room.defs
                 world.defs newPlayer_def seatOf_def emptySeat_def)

lemma created_ginv: "on_createRoom c sid nm t = Some w \<Longrightarrow> ginv w"
  by (simp add: ginv_def timersOk_created cinv_def created_core inv_defs emptySeat_def
                activePhase_def seatAlive_def)

lemma game_reachable_ginv: "game_reachable w \<Longrightarrow> ginv w"
proof (induction rule: game_reachable.induct)
  case (g_created c sid nm t w)
  then show ?case by (rule created_ginv)
next
  case (g_stepped w e w')
  from step_ginv_gen [OF g_stepped.IH g_stepped.hyps(2,3)] show ?case .
qed

lemma game_reachable_reachable: "game_reachable w \<Longrightarrow> reachable w"
  by (induction rule: game_reachable.induct) (auto intro: reachable.intros)

lemma exec_game_reachable:
  "game_reachable w \<Longrightarrow> list_all (\<lambda>e. \<not> isPlayAgain e) es \<Longrightarrow> exec es w = Some w' \<Longrightarrow>
   game_reachable w'"
proof (induction es arbitrary: w)
  case Nil
  then show ?case by simp
next
  case (Cons e es)
  from Cons.prems(3) obtain w1 where s: "step e w = Some w1" and r: "exec es w1 = Some w'"
    by (auto split: option.splits)
  from Cons.prems(2) have "isPlayAgain e \<longrightarrow> quiescent w" by simp
  from game_reachable.g_stepped [OF Cons.prems(1) this s] have "game_reachable w1" .
  with Cons.IH [of w1] Cons.prems(2) r show ?case by simp
qed

lemma game_reachable_demoLobby: "game_reachable demoLobby"
  using demoLobby_created by (rule game_reachable.g_created)



lemma revealsOf_coreOf: "revealsOf (coreOf w) i = revealedOf w i"
  by (simp add: revealsOf_def revealedOf_def filter_map comp_def)

lemma game_reachable_cinv: "game_reachable w \<Longrightarrow> cinv (coreOf w)"
  using game_reachable_ginv by (simp add: ginv_def)

lemma pending_StartRound:
  "StartRoundCb \<in> set (c_pending (coreOf w)) \<longleftrightarrow> StartRoundCb \<in> set (map callback (timers w))"
  by auto

lemma tokens_conserved:
  assumes c: "cinv (coreOf w)"
    and ph: "phase w \<in> {Placing, Bidding, Flipping, FlipResult, Penalty}"
    and sr: "StartRoundCb \<notin> set (map callback (timers w))"
    and i: "i < length (players w)" and ne: "\<not> eliminated (players w ! i)"
  shows "length (hand (players w ! i)) + length (stack (players w ! i)) + revealedOf w i
           = length (cards (players w ! i))"
proof -
  from sr have "StartRoundCb \<notin> set (c_pending (coreOf w))"
    unfolding pending_StartRound .
  with cinvD(5) [OF c] ph i ne show ?thesis
    unfolding inv_tokens_def activePhase_def revealsOf_coreOf by simp
qed

lemma no_reveals_before_flipping:
  assumes c: "cinv (coreOf w)" and ph: "phase w \<in> {Placing, Bidding}"
  shows "revealedCards w = []" "StartRoundCb \<notin> set (map callback (timers w))"
proof -
  from cinvD(6) [OF c] ph show "revealedCards w = []" by (auto simp: inv_reveals_def)
  from cinvD(7) [OF c] ph have "c_pending (coreOf w) = []" unfolding inv_pending_def by auto
  then have "StartRoundCb \<notin> set (c_pending (coreOf w))" by (simp del: coreOf_fields)
  then show "StartRoundCb \<notin> set (map callback (timers w))"
    unfolding pending_StartRound .
qed

lemma runs_game_reachable:
  assumes "game_reachable w" and "runs es w" and "list_all (\<lambda>e. \<not> isPlayAgain e) es"
  shows "game_reachable (the (exec es w))"
proof -
  from assms(2) have "exec es w = Some (the (exec es w))"
    by (auto simp: runs_def split: option.splits)
  with assms(1,3) show ?thesis by (rule exec_game_reachable)
qed

lemma demoTrace_game: "list_all (\<lambda>e. \<not> isPlayAgain e) demoTrace"
  by (simp add: demoTrace_def)

lemma game_reachable_demoFlipping: "game_reachable demoFlipping"
proof -
  have "runs demoTrace demoLobby" by code_simp
  from runs_game_reachable [OF game_reachable_demoLobby this demoTrace_game]
  show ?thesis by (simp add: demoFlipping_def)
qed

lemma game_reachable_demoFlipped: "game_reachable demoFlipped"
proof -
  have r: "runs (demoTrace @ [FlipCoaster ''s1'' 0]) demoLobby" by code_simp
  have "list_all (\<lambda>e. \<not> isPlayAgain e) (demoTrace @ [FlipCoaster ''s1'' 0])"
    by (simp add: demoTrace_def)
  from runs_game_reachable [OF game_reachable_demoLobby r this]
  show ?thesis by (simp add: demoFlipped_def)
qed

lemma game_reachable_demoPlacing: "game_reachable demoPlacing"
proof -
  have r: "runs [JoinRoom ''s2'' ''Bob'', StartGame ''s1'', PlaceCard ''s1'' 0] demoLobby"
    by code_simp
  have "list_all (\<lambda>e. \<not> isPlayAgain e) [JoinRoom ''s2'' ''Bob'', StartGame ''s1'', PlaceCard ''s1'' 0]"
    by simp
  from runs_game_reachable [OF game_reachable_demoLobby r this]
  show ?thesis by (simp add: demoPlacing_def)
qed











































lemma runs_step: "runs [e] w \<Longrightarrow> step e w = Some (the (step e w))"
  by (auto simp: runs_def split: option.splits)





















lemma bidAction_outbox [simp]: "bidAction (w\<lparr>outbox := ob\<rparr>) e = bidAction w e"
  by (cases e) (simp_all add: seated_def startBidAllowed_def raiseAllowed_def passAllowed_def
                              playerIndex_def player_at_def countOnTable_def split: option.splits)


section \<open>Flipping\<close>

text \<open>
  Claim C2. A flip request from a seated player is applied if and only if the phase is
  \<open>flipping\<close>, the requester is the highest bidder and the turn owner, \<open>flipsRemaining\<close> is
  positive, the target seat exists, is not eliminated and has a non-empty stack, and the target
  is the requester's own seat or the requester's own stack is empty. An applied flip removes the
  last (top) token of the target's stack, appends the reveal record of seat index, token and
  player name, and decrements \<open>flipsRemaining\<close> by one. Any other request returns the world
  unchanged.
\<close>

theorem C2_flip:
  assumes seat: "player_at w flipperIdx \<noteq> None"
  shows "(flipAllowed w flipperIdx targetIdx \<longrightarrow>
            handleFlip w flipperIdx targetIdx \<noteq> None \<and>
            players (the (handleFlip w flipperIdx targetIdx)) =
              (players w)[nat targetIdx :=
                 (players w ! nat targetIdx)\<lparr>stack := butlast (stack (players w ! nat targetIdx))\<rparr>] \<and>
            revealedCards (the (handleFlip w flipperIdx targetIdx)) =
              revealedCards w @
                [\<lparr>rc_playerIndex = targetIdx,
                  rc_card = last (stack (players w ! nat targetIdx)),
                  rc_playerName = name (players w ! nat targetIdx)\<rparr>] \<and>
            flipsRemaining (the (handleFlip w flipperIdx targetIdx)) = flipsRemaining w - 1) \<and>
         (\<not> flipAllowed w flipperIdx targetIdx \<longrightarrow> handleFlip w flipperIdx targetIdx = Some w)"
proof -
  from seat obtain flipper where f: "player_at w flipperIdx = Some flipper" by auto
  show ?thesis
  proof (cases "flipAllowed w flipperIdx targetIdx")
    case False
    then show ?thesis
      using f by (auto simp: flipAllowed_def handleFlip_def split: option.splits)
  next
    case True
    then obtain target where t: "player_at w targetIdx = Some target"
      by (auto simp: flipAllowed_def split: option.splits)
    then have tn: "target = players w ! nat targetIdx"
      by (auto simp: player_at_def split: if_splits)
    from True t f have c: "phase w = Flipping" "flipperIdx = highestBidder w"
      "currentPlayer w = flipperIdx" "0 < flipsRemaining w" "\<not> eliminated target"
      "stack target \<noteq> []" "targetIdx = flipperIdx \<or> stack flipper = []"
      by (auto simp: flipAllowed_def)
    show ?thesis
      using True c t f tn
      by (auto simp: handleFlip_def Let_def addLog_def setTimeout_def set_player_def)
  qed
qed

theorem C2_flip_witness:
  "player_at demoFlipping 0 \<noteq> None \<and>
   flipAllowed demoFlipping 0 0 \<and>
   flipsRemaining (the (handleFlip demoFlipping 0 0)) = 1 \<and>
   map stack (players (the (handleFlip demoFlipping 0 0))) = [[], [Skull]] \<and>
   \<not> flipAllowed demoFlipping 0 1 \<and>
   handleFlip demoFlipping 0 1 = Some demoFlipping"
proof -
  have a: "player_at demoFlipping 0 \<noteq> None" by code_simp
  have b: "flipAllowed demoFlipping 0 0" by code_simp
  have c: "flipsRemaining demoFlipping = 2" by code_simp
  have d: "\<not> flipAllowed demoFlipping 0 1" by code_simp
  have e: "map stack (players demoFlipping) = [[Rose], [Skull]]" by code_simp
  have f: "length (players demoFlipping) = 2" by code_simp
  from e f have g: "stack (players demoFlipping ! 0) = [Rose]" "stack (players demoFlipping ! 1) = [Skull]"
    by (auto simp: list_eq_iff_nth_eq)
  from C2_flip [OF a, of 0] b c have
    "flipsRemaining (the (handleFlip demoFlipping 0 0)) = 1"
    "players (the (handleFlip demoFlipping 0 0)) =
       (players demoFlipping)[nat 0 := (players demoFlipping ! nat 0)\<lparr>stack := butlast (stack (players demoFlipping ! nat 0))\<rparr>]"
    by simp_all
  moreover from C2_flip [OF a, of 1] d have "handleFlip demoFlipping 0 1 = Some demoFlipping" by simp
  ultimately show ?thesis using a b d e f g
    by (simp add: map_update list_eq_iff_nth_eq nth_list_update less_Suc_eq)
qed

section \<open>Joining a room\<close>

text \<open>
  Claim C9, for a code and a display name made of ASCII characters (the range on which
  \<open>trim\<close> and \<open>toUpperCase\<close> are the functions of the runtime). The join handler looks the
  room up under the supplied code, uppercased (and trimmed). An unknown code is answered with room-not-found. For a room that has not started,
  six seats are answered with room-full, and, when there is still a free seat, a seat that
  already carries the requested name with name-taken (the handler checks the capacity before the
  name). For a started room, the answer is game-in-progress unless some disconnected seat carries
  the requested name; in that case the join succeeds and the first such seat is rebound: only its
  identity and its connected flag change, and the list of seats keeps its length. Every failure
  leaves the registry unchanged.
\<close>

theorem C9_join:
  assumes "isAscii dcode" and "isAscii dname"
  shows
  "(rooms (trim (toUpperCase dcode)) = None \<longrightarrow>
      on_joinRoom rooms sid dcode dname = Some (JoinFailure RoomNotFound, rooms)) \<and>
   (\<forall>w. rooms (trim (toUpperCase dcode)) = Some w \<longrightarrow>
      (\<not> started w \<and> 6 \<le> length (players w) \<longrightarrow>
         on_joinRoom rooms sid dcode dname = Some (JoinFailure RoomFull, rooms)) \<and>
      (\<not> started w \<and> length (players w) < 6 \<and> (\<exists>p \<in> set (players w). name p = joinName dname) \<longrightarrow>
         on_joinRoom rooms sid dcode dname = Some (JoinFailure NameTaken, rooms)) \<and>
      (started w \<and> \<not> (\<exists>p \<in> set (players w). name p = joinName dname \<and> \<not> connected p) \<longrightarrow>
         on_joinRoom rooms sid dcode dname = Some (JoinFailure GameInProgress, rooms)) \<and>
      (started w \<and> (\<exists>p \<in> set (players w). name p = joinName dname \<and> \<not> connected p) \<longrightarrow>
         (\<exists>k w'. on_joinRoom rooms sid dcode dname =
                    Some (JoinSuccess (trim (toUpperCase dcode)),
                          rooms(trim (toUpperCase dcode) \<mapsto> w')) \<and>
                 k < length (players w) \<and>
                 name (players w ! k) = joinName dname \<and> \<not> connected (players w ! k) \<and>
                 (\<forall>i < k. \<not> (name (players w ! i) = joinName dname \<and> \<not> connected (players w ! i))) \<and>
                 players w' = (players w)[k := (players w ! k)\<lparr>ident := sid, connected := True\<rparr>])))"
proof (intro conjI allI impI)
  assume "rooms (trim (toUpperCase dcode)) = None"
  then show "on_joinRoom rooms sid dcode dname = Some (JoinFailure RoomNotFound, rooms)"
    by (simp add: on_joinRoom_def)
next
  fix w assume r: "rooms (trim (toUpperCase dcode)) = Some w"
    and c: "\<not> started w \<and> 6 \<le> length (players w)"
  from r have "rooms(trim (toUpperCase dcode) \<mapsto> w) = rooms" by (rule map_upd_triv)
  with r c show "on_joinRoom rooms sid dcode dname = Some (JoinFailure RoomFull, rooms)"
    by (simp add: on_joinRoom_def joinFound_def)
next
  fix w assume r: "rooms (trim (toUpperCase dcode)) = Some w"
    and c: "\<not> started w \<and> length (players w) < 6 \<and> (\<exists>p \<in> set (players w). name p = joinName dname)"
  from r have "rooms(trim (toUpperCase dcode) \<mapsto> w) = rooms" by (rule map_upd_triv)
  moreover from c have "0 \<le> findIndex (\<lambda>p. name p = joinName dname) (players w)"
    by (simp add: findIndex_nonneg_iff)
  ultimately show "on_joinRoom rooms sid dcode dname = Some (JoinFailure NameTaken, rooms)"
    using r c by (simp add: on_joinRoom_def joinFound_def)
next
  fix w assume r: "rooms (trim (toUpperCase dcode)) = Some w"
    and c: "started w \<and> \<not> (\<exists>p \<in> set (players w). name p = joinName dname \<and> \<not> connected p)"
  from r have "rooms(trim (toUpperCase dcode) \<mapsto> w) = rooms" by (rule map_upd_triv)
  moreover from c have "player_at w (findIndex (\<lambda>p. name p = joinName dname \<and> \<not> connected p) (players w)) = None"
    by (simp add: player_at_findIndex)
  ultimately show "on_joinRoom rooms sid dcode dname = Some (JoinFailure GameInProgress, rooms)"
    using r c by (simp add: on_joinRoom_def joinFound_def)
next
  fix w assume r: "rooms (trim (toUpperCase dcode)) = Some w"
    and c: "started w \<and> (\<exists>p \<in> set (players w). name p = joinName dname \<and> \<not> connected p)"
  let ?P = "\<lambda>p. name p = joinName dname \<and> \<not> connected p"
  let ?k = "findIndex ?P (players w)"
  from c have nn: "0 \<le> ?k" by (simp add: findIndex_nonneg_iff)
  with findIndex_range [of ?P "players w"] have lt: "nat ?k < length (players w)" by auto
  from nn have sat: "?P (players w ! nat ?k)" by (rule findIndex_sat)
  from nn have least: "\<forall>i < nat ?k. \<not> ?P (players w ! i)" using findIndex_least [of ?P "players w"] by blast
  from c have pa: "player_at w ?k = Some (players w ! nat ?k)" by (simp add: player_at_findIndex)
  let ?w' = "(set_player w ?k ((players w ! nat ?k)\<lparr>ident := sid, connected := True\<rparr>))"
  have "on_joinRoom rooms sid dcode dname =
          Some (JoinSuccess (trim (toUpperCase dcode)),
                rooms(trim (toUpperCase dcode) \<mapsto> ?w'\<lparr>outbox := outbox ?w' @ stateMsgs ?w'\<rparr>))"
    using r c pa by (simp add: on_joinRoom_def joinFound_def Let_def)
  moreover have "players (?w'\<lparr>outbox := outbox ?w' @ stateMsgs ?w'\<rparr>)
       = (players w)[nat ?k := (players w ! nat ?k)\<lparr>ident := sid, connected := True\<rparr>]"
    by (simp add: set_player_def)
  ultimately show "\<exists>k w'. on_joinRoom rooms sid dcode dname =
                    Some (JoinSuccess (trim (toUpperCase dcode)),
                          rooms(trim (toUpperCase dcode) \<mapsto> w')) \<and>
                 k < length (players w) \<and>
                 name (players w ! k) = joinName dname \<and> \<not> connected (players w ! k) \<and>
                 (\<forall>i < k. \<not> (name (players w ! i) = joinName dname \<and> \<not> connected (players w ! i))) \<and>
                 players w' = (players w)[k := (players w ! k)\<lparr>ident := sid, connected := True\<rparr>]"
    using lt sat least by blast
qed


theorem C9_join_witness:
  "on_joinRoom demoRooms ''s9'' ''zzzz'' ''Bob'' = Some (JoinFailure RoomNotFound, demoRooms) \<and>
   on_joinRoom demoRooms ''s9'' ''jklm'' ''Guy'' = Some (JoinFailure RoomFull, demoRooms) \<and>
   on_joinRoom demoRooms ''s9'' ''efgh'' '' Ann '' = Some (JoinFailure NameTaken, demoRooms) \<and>
   on_joinRoom demoRooms ''s9'' ''abcd'' ''Guy'' = Some (JoinFailure GameInProgress, demoRooms) \<and>
   on_joinRoom demoRooms ''s9'' ''abcd'' ''Bob'' \<noteq> None \<and>
   fst (the (on_joinRoom demoRooms ''s9'' ''abcd'' ''Bob'')) = JoinSuccess ''ABCD''"
proof -
  have asc: "isAscii ''zzzz''" "isAscii ''jklm''" "isAscii ''efgh''" "isAscii ''abcd''"
    "isAscii ''Bob''" "isAscii ''Guy''" "isAscii '' Ann ''"
    by code_simp+
  have k1: "demoRooms (trim (toUpperCase ''zzzz'')) = None" by code_simp
  have k2: "demoRooms (trim (toUpperCase ''jklm'')) = Some demoFullLobby" by code_simp
  have k3: "demoRooms (trim (toUpperCase ''efgh'')) = Some demoLobby" by code_simp
  have k4: "demoRooms (trim (toUpperCase ''abcd'')) = Some demoDisconnected" by code_simp
  have up: "trim (toUpperCase ''abcd'') = ''ABCD''" by code_simp
  have h2: "\<not> started demoFullLobby \<and> 6 \<le> length (players demoFullLobby)" by code_simp
  have h3: "\<not> started demoLobby \<and> length (players demoLobby) < 6 \<and>
            (\<exists>p \<in> set (players demoLobby). name p = joinName '' Ann '')" by code_simp
  have h4: "started demoDisconnected \<and>
            \<not> (\<exists>p \<in> set (players demoDisconnected). name p = joinName ''Guy'' \<and> \<not> connected p)"
    by code_simp
  have h5: "started demoDisconnected \<and>
            (\<exists>p \<in> set (players demoDisconnected). name p = joinName ''Bob'' \<and> \<not> connected p)"
    by code_simp
  from C9_join [of "''zzzz''" "''Bob''" demoRooms "''s9''"] asc k1
  have 1: "on_joinRoom demoRooms ''s9'' ''zzzz'' ''Bob'' = Some (JoinFailure RoomNotFound, demoRooms)"
    by blast
  from C9_join [of "''jklm''" "''Guy''" demoRooms "''s9''"] asc k2 h2
  have 2: "on_joinRoom demoRooms ''s9'' ''jklm'' ''Guy'' = Some (JoinFailure RoomFull, demoRooms)"
    by blast
  from C9_join [of "''efgh''" "'' Ann ''" demoRooms "''s9''"] asc k3 h3
  have 3: "on_joinRoom demoRooms ''s9'' ''efgh'' '' Ann '' = Some (JoinFailure NameTaken, demoRooms)"
    by blast
  from C9_join [of "''abcd''" "''Guy''" demoRooms "''s9''"] asc k4 h4
  have 4: "on_joinRoom demoRooms ''s9'' ''abcd'' ''Guy'' = Some (JoinFailure GameInProgress, demoRooms)"
    by blast
  from C9_join [of "''abcd''" "''Bob''" demoRooms "''s9''"] asc k4 h5
  obtain k w' where "on_joinRoom demoRooms ''s9'' ''abcd'' ''Bob'' =
      Some (JoinSuccess (trim (toUpperCase ''abcd'')), demoRooms(trim (toUpperCase ''abcd'') \<mapsto> w'))"
    by blast
  with up have 5: "on_joinRoom demoRooms ''s9'' ''abcd'' ''Bob'' \<noteq> None"
    "fst (the (on_joinRoom demoRooms ''s9'' ''abcd'' ''Bob'')) = JoinSuccess ''ABCD''"
    by simp_all
  from 1 2 3 4 5 show ?thesis by (intro conjI)
qed

section \<open>One deadline per room\<close>

text \<open>
  Claim C7. In every reachable state of a room (resets by \<open>playAgain\<close> included) the timeout
  table holds at most one deadline, and it is the one whose handle the room stores in
  \<open>turnTimer\<close>; starting a deadline leaves the new deadline as the only one in the table, the
  pending one having been cancelled first. A deadline callback that runs when the phase or the
  turn owner is no longer the one it was scheduled for returns the world unchanged; the firing
  as a whole then only takes the entry out of the table and clears \<open>turnTimer\<close> and
  \<open>turnDeadline\<close>, which is what the wrapper of \<open>startTurnTimer\<close> does before it calls the
  callback.
\<close>

theorem C7_single_deadline_and_stale_noop:
  "(reachable w \<longrightarrow>
      length (filter (\<lambda>t. isDeadline (callback t)) (timers w)) \<le> 1 \<and>
      (\<forall>t \<in> set (timers w). isDeadline (callback t) \<longleftrightarrow> turnTimer w = Some (handle t)) \<and>
      filter (\<lambda>t. isDeadline (callback t)) (timers (startTurnTimer w s cb')) =
        [\<lparr>handle = nextTimer w, due = now w + s * 1000, callback = Deadline cb'\<rparr>]) \<and>
   (\<not> justified w cb \<longrightarrow> runDeadlineCallback w cb = Some w) \<and>
   (\<forall>t. find (\<lambda>t. handle t = h) (timers w) = Some t \<and> due t \<le> now w \<and>
        callback t = Deadline cb \<and> \<not> justified w cb \<longrightarrow>
        fire w h rnd =
          Some (w\<lparr>timers := filter (\<lambda>t. handle t \<noteq> h) (timers w), turnTimer := None,
                  turnDeadline := 0\<rparr>))"
proof (intro conjI impI allI)
  assume "reachable w"
  then have ok: "timersOk w" by (rule reachable_timersOk)
  then show "length (filter (\<lambda>t. isDeadline (callback t)) (timers w)) \<le> 1"
    unfolding timersOk_def by (rule schedOk_deadlines)
  from ok show "\<forall>t \<in> set (timers w). isDeadline (callback t) \<longleftrightarrow> turnTimer w = Some (handle t)"
    by (simp add: timersOk_def schedOk_def)
  from ok show "filter (\<lambda>t. isDeadline (callback t)) (timers (startTurnTimer w s cb')) =
        [\<lparr>handle = nextTimer w, due = now w + s * 1000, callback = Deadline cb'\<rparr>]"
    by (rule deadlines_after_startTurnTimer)
next
  assume "\<not> justified w cb"
  then show "runDeadlineCallback w cb = Some w" by (rule stale_callback_noop)
next
  fix t
  assume a: "find (\<lambda>t. handle t = h) (timers w) = Some t \<and> due t \<le> now w \<and>
        callback t = Deadline cb \<and> \<not> justified w cb"
  let ?w1 = "w\<lparr>timers := filter (\<lambda>t. handle t \<noteq> h) (timers w), turnTimer := None, turnDeadline := 0\<rparr>"
  from a have "\<not> justified ?w1 cb" by (cases cb) auto
  then have "runDeadlineCallback ?w1 cb = Some ?w1" by (rule stale_callback_noop)
  with a show "fire w h rnd = Some ?w1"
    by (simp add: fire_def)
qed

theorem C7_witness:
  "reachable demoStale \<and>
   length (filter (\<lambda>t. isDeadline (callback t)) (timers demoStale)) = 1 \<and>
   turnTimer demoStale = Some 0 \<and>
   map handle (filter (\<lambda>t. isDeadline (callback t)) (timers (startTurnTimer demoStale 20 BidExpiry))) = [1] \<and>
   \<not> justified demoStale (RoundStartExpiry 0) \<and>
   runDeadlineCallback demoStale (RoundStartExpiry 0) = Some demoStale \<and>
   fire demoStale 0 0 =
     Some (demoStale\<lparr>timers := filter (\<lambda>t. handle t \<noteq> 0) (timers demoStale), turnTimer := None,
                      turnDeadline := 0\<rparr>)"
proof -
  have ex: "exec [JoinRoom ''s2'' ''Bob'', StartGame ''s1'', PlayAgain ''s1'', Tick 20000] demoLobby \<noteq> None"
    by code_simp
  then have "exec [JoinRoom ''s2'' ''Bob'', StartGame ''s1'', PlayAgain ''s1'', Tick 20000] demoLobby
             = Some demoStale"
    by (auto simp: demoStale_def)
  with reachable_demoLobby have r: "reachable demoStale" by (rule exec_reachable)
  have l: "length (filter (\<lambda>t. isDeadline (callback t)) (timers demoStale)) = 1" by code_simp
  have tt: "turnTimer demoStale = Some 0" by code_simp
  have nt: "nextTimer demoStale = 1" by code_simp
  have nj: "\<not> justified demoStale (RoundStartExpiry 0)" by code_simp
  have f: "find (\<lambda>t. handle t = 0) (timers demoStale) =
             Some \<lparr>handle = 0, due = 20000, callback = Deadline (RoundStartExpiry 0)\<rparr>"
    by code_simp
  have d: "(20000::int) \<le> now demoStale" by code_simp
  note C = C7_single_deadline_and_stale_noop [of demoStale 20 BidExpiry "RoundStartExpiry 0" 0 0]
  from C r nt have 1: "map handle (filter (\<lambda>t. isDeadline (callback t))
                         (timers (startTurnTimer demoStale 20 BidExpiry))) = [1]"
    by simp
  from C nj have 2: "runDeadlineCallback demoStale (RoundStartExpiry 0) = Some demoStale"
    by blast
  from C have "find (\<lambda>t. handle t = 0) (timers demoStale) =
                 Some \<lparr>handle = 0, due = 20000, callback = Deadline (RoundStartExpiry 0)\<rparr> \<and>
               due \<lparr>handle = 0, due = 20000, callback = Deadline (RoundStartExpiry 0)\<rparr> \<le> now demoStale \<and>
               callback \<lparr>handle = 0, due = 20000, callback = Deadline (RoundStartExpiry 0)\<rparr>
                 = Deadline (RoundStartExpiry 0) \<and>
               \<not> justified demoStale (RoundStartExpiry 0) \<longrightarrow>
     fire demoStale 0 0 =
     Some (demoStale\<lparr>timers := filter (\<lambda>t. handle t \<noteq> 0) (timers demoStale), turnTimer := None,
                      turnDeadline := 0\<rparr>)"
    by blast
  with f d nj have 3: "fire demoStale 0 0 =
     Some (demoStale\<lparr>timers := filter (\<lambda>t. handle t \<noteq> 0) (timers demoStale), turnTimer := None,
                      turnDeadline := 0\<rparr>)"
    by simp
  from r l tt 1 nj 2 3 show ?thesis by (intro conjI)
qed

section \<open>State projector: what a viewer sees\<close>

text \<open>
  Claim C6. The viewer's seat is the first seat whose identity is the viewing identity, and
  there is none exactly when no seat carries that identity. For every room and every viewing
  identity, the projection, when it is produced, carries every seat's hand, stack and token
  counts, its wins and its connected, eliminated and passed flags; it carries hand contents
  for the viewer's own seat only (null for every other seat): a seat whose hand is shown
  carries the viewer's identity, and it is the viewer's seat that is shown and marked
  \<open>isMe\<close>; it carries penalty cards exactly when the room is in phase \<open>penalty\<close> and the
  viewer's seat is the penalty player, so that penalty cards are only shown to the identity
  of the penalty player and are that player's tokens; and replacing the hand of any seat other
  than the viewer's (in particular of any seat that carries another identity) by a hand of the
  same length leaves the projection unchanged. The projection is not produced (the handler
  throws) only for a viewer that holds no seat while the phase is \<open>penalty\<close> and no penalty
  player is set.
\<close>

theorem C6_projection_hides_other_hands:
  "(stateForPlayer r sid = None \<longleftrightarrow>
      phase r = Penalty \<and> penaltyPlayer r = -1 \<and> playerIndex r sid = -1) \<and>
   (\<forall>v. stateForPlayer r sid = Some v \<longrightarrow>
      length (v_players v) = length (players r) \<and>
      (\<forall>i < length (players r).
         pv_handCount (v_players v ! i) = int (length (hand (players r ! i))) \<and>
         pv_stackCount (v_players v ! i) = int (length (stack (players r ! i))) \<and>
         pv_totalCards (v_players v ! i) = int (length (cards (players r ! i))) \<and>
         pv_wins (v_players v ! i) = wins (players r ! i) \<and>
         pv_connected (v_players v ! i) = connected (players r ! i) \<and>
         pv_eliminated (v_players v ! i) = eliminated (players r ! i) \<and>
         pv_passed (v_players v ! i) = passed (players r ! i) \<and>
         pv_hand (v_players v ! i) =
           (if int i = playerIndex r sid then Some (hand (players r ! i)) else None)) \<and>
      v_penaltyCards v =
        (if phase r = Penalty \<and> penaltyPlayer r = playerIndex r sid
         then Some (cards (players r ! nat (playerIndex r sid))) else None)) \<and>
   (\<forall>j h. j < length (players r) \<and> int j \<noteq> playerIndex r sid \<and>
           length h = length (hand (players r ! j)) \<longrightarrow>
      stateForPlayer (r\<lparr>players := (players r)[j := (players r ! j)\<lparr>hand := h\<rparr>]\<rparr>) sid
        = stateForPlayer r sid) \<and>
   (playerIndex r sid = -1 \<longleftrightarrow> (\<forall>p \<in> set (players r). ident p \<noteq> sid)) \<and>
   (\<forall>i < length (players r).
      playerIndex r sid = int i \<longleftrightarrow>
        ident (players r ! i) = sid \<and> (\<forall>j < i. ident (players r ! j) \<noteq> sid)) \<and>
   (\<forall>v. stateForPlayer r sid = Some v \<longrightarrow>
      (\<forall>i < length (players r).
         (pv_hand (v_players v ! i) \<noteq> None \<longrightarrow>
            ident (players r ! i) = sid \<and>
            pv_hand (v_players v ! i) = Some (hand (players r ! i))) \<and>
         (ident (players r ! i) \<noteq> sid \<longrightarrow>
            pv_hand (v_players v ! i) = None \<and> \<not> pv_isMe (v_players v ! i)) \<and>
         (ident (players r ! i) = sid \<and> (\<forall>j < i. ident (players r ! j) \<noteq> sid) \<longrightarrow>
            pv_hand (v_players v ! i) = Some (hand (players r ! i)) \<and>
            pv_isMe (v_players v ! i))) \<and>
      (\<forall>cs. v_penaltyCards v = Some cs \<longrightarrow>
         phase r = Penalty \<and>
         (\<exists>p. player_at r (penaltyPlayer r) = Some p \<and> ident p = sid \<and> cs = cards p))) \<and>
   (\<forall>j h. j < length (players r) \<and> ident (players r ! j) \<noteq> sid \<and>
           length h = length (hand (players r ! j)) \<longrightarrow>
      stateForPlayer (r\<lparr>players := (players r)[j := (players r ! j)\<lparr>hand := h\<rparr>]\<rparr>) sid
        = stateForPlayer r sid)"
proof -
  have 1: "stateForPlayer r sid = None \<longleftrightarrow>
      phase r = Penalty \<and> penaltyPlayer r = -1 \<and> playerIndex r sid = -1"
    by (rule stateForPlayer_None_iff)
  have 2: "length (v_players v) = length (players r)" if "stateForPlayer r sid = Some v" for v
    by (simp add: stateForPlayer_players [OF that])
  have 3: "\<forall>v. stateForPlayer r sid = Some v \<longrightarrow>
      length (v_players v) = length (players r) \<and>
      (\<forall>i < length (players r).
         pv_handCount (v_players v ! i) = int (length (hand (players r ! i))) \<and>
         pv_stackCount (v_players v ! i) = int (length (stack (players r ! i))) \<and>
         pv_totalCards (v_players v ! i) = int (length (cards (players r ! i))) \<and>
         pv_wins (v_players v ! i) = wins (players r ! i) \<and>
         pv_connected (v_players v ! i) = connected (players r ! i) \<and>
         pv_eliminated (v_players v ! i) = eliminated (players r ! i) \<and>
         pv_passed (v_players v ! i) = passed (players r ! i) \<and>
         pv_hand (v_players v ! i) =
           (if int i = playerIndex r sid then Some (hand (players r ! i)) else None)) \<and>
      v_penaltyCards v =
        (if phase r = Penalty \<and> penaltyPlayer r = playerIndex r sid
         then Some (cards (players r ! nat (playerIndex r sid))) else None)"
    using 2 stateForPlayer_seat [of r sid] stateForPlayer_penaltyCards [of r sid]
    by (intro allI impI conjI) blast+
  have 4: "\<forall>j h. j < length (players r) \<and> int j \<noteq> playerIndex r sid \<and>
           length h = length (hand (players r ! j)) \<longrightarrow>
      stateForPlayer (r\<lparr>players := (players r)[j := (players r ! j)\<lparr>hand := h\<rparr>]\<rparr>) sid
        = stateForPlayer r sid"
    using stateForPlayer_hand_independent [of _ r sid] by blast
  have 5: "playerIndex r sid = -1 \<longleftrightarrow> (\<forall>p \<in> set (players r). ident p \<noteq> sid)"
    by (rule playerIndex_absent)
  have 6: "\<forall>i < length (players r).
      playerIndex r sid = int i \<longleftrightarrow>
        ident (players r ! i) = sid \<and> (\<forall>j < i. ident (players r ! j) \<noteq> sid)"
    using playerIndex_first [of _ r sid] by blast
  have 7: "\<forall>v. stateForPlayer r sid = Some v \<longrightarrow>
      (\<forall>i < length (players r).
         (pv_hand (v_players v ! i) \<noteq> None \<longrightarrow>
            ident (players r ! i) = sid \<and>
            pv_hand (v_players v ! i) = Some (hand (players r ! i))) \<and>
         (ident (players r ! i) \<noteq> sid \<longrightarrow>
            pv_hand (v_players v ! i) = None \<and> \<not> pv_isMe (v_players v ! i)) \<and>
         (ident (players r ! i) = sid \<and> (\<forall>j < i. ident (players r ! j) \<noteq> sid) \<longrightarrow>
            pv_hand (v_players v ! i) = Some (hand (players r ! i)) \<and>
            pv_isMe (v_players v ! i))) \<and>
      (\<forall>cs. v_penaltyCards v = Some cs \<longrightarrow>
         phase r = Penalty \<and>
         (\<exists>p. player_at r (penaltyPlayer r) = Some p \<and> ident p = sid \<and> cs = cards p))"
  proof (intro allI impI conjI)
    fix v i
    assume v: "stateForPlayer r sid = Some v" and i: "i < length (players r)"
    note o = stateForPlayer_own_hand [OF v i]
    {
      assume "pv_hand (v_players v ! i) \<noteq> None"
      with o show "ident (players r ! i) = sid" by blast
    }
    {
      assume "pv_hand (v_players v ! i) \<noteq> None"
      with o show "pv_hand (v_players v ! i) = Some (hand (players r ! i))" by blast
    }
    {
      assume "ident (players r ! i) \<noteq> sid"
      with o show "pv_hand (v_players v ! i) = None" by blast
    }
    {
      assume "ident (players r ! i) \<noteq> sid"
      with o show "\<not> pv_isMe (v_players v ! i)" by blast
    }
    {
      assume "ident (players r ! i) = sid \<and> (\<forall>j < i. ident (players r ! j) \<noteq> sid)"
      with o show "pv_hand (v_players v ! i) = Some (hand (players r ! i))" by blast
    }
    {
      assume "ident (players r ! i) = sid \<and> (\<forall>j < i. ident (players r ! j) \<noteq> sid)"
      with o show "pv_isMe (v_players v ! i)" by blast
    }
  next
    fix v cs
    assume v: "stateForPlayer r sid = Some v" and c: "v_penaltyCards v = Some cs"
    from stateForPlayer_penalty_owner [OF v c] show "phase r = Penalty" by simp
    from stateForPlayer_penalty_owner [OF v c]
    show "\<exists>p. player_at r (penaltyPlayer r) = Some p \<and> ident p = sid \<and> cs = cards p" by simp
  qed
  have 8: "\<forall>j h. j < length (players r) \<and> ident (players r ! j) \<noteq> sid \<and>
           length h = length (hand (players r ! j)) \<longrightarrow>
      stateForPlayer (r\<lparr>players := (players r)[j := (players r ! j)\<lparr>hand := h\<rparr>]\<rparr>) sid
        = stateForPlayer r sid"
    using stateForPlayer_foreign_hand [of _ r sid] by blast
  from 1 3 4 5 6 7 8 show ?thesis by (intro conjI)
qed

text \<open>The sample room in phase \<open>penalty\<close>, Ann being the penalty player, as projected for
  Ann (\<open>s1\<close>) and for Bob (\<open>s2\<close>): each is shown their own hand only, and only Ann is shown
  penalty cards.\<close>

theorem C6_projection_witness:
  "stateForPlayer exampleRoom ''s1'' \<noteq> None \<and>
   length (v_players (the (stateForPlayer exampleRoom ''s1''))) = 2 \<and>
   pv_hand (v_players (the (stateForPlayer exampleRoom ''s1'')) ! 0) = Some [Rose] \<and>
   pv_hand (v_players (the (stateForPlayer exampleRoom ''s1'')) ! 1) = None \<and>
   pv_handCount (v_players (the (stateForPlayer exampleRoom ''s1'')) ! 1) = 2 \<and>
   v_penaltyCards (the (stateForPlayer exampleRoom ''s1'')) = Some [Rose, Skull] \<and>
   stateForPlayer
     (exampleRoom\<lparr>players := (players exampleRoom)[1 := (players exampleRoom ! 1)\<lparr>hand := [Skull, Rose]\<rparr>]\<rparr>)
     ''s1'' = stateForPlayer exampleRoom ''s1'' \<and>
   stateForPlayer exampleRoom ''s2'' \<noteq> None \<and>
   playerIndex exampleRoom ''s2'' = 1 \<and>
   pv_hand (v_players (the (stateForPlayer exampleRoom ''s2'')) ! 0) = None \<and>
   \<not> pv_isMe (v_players (the (stateForPlayer exampleRoom ''s2'')) ! 0) \<and>
   pv_hand (v_players (the (stateForPlayer exampleRoom ''s2'')) ! 1) = Some [Rose, Skull] \<and>
   pv_isMe (v_players (the (stateForPlayer exampleRoom ''s2'')) ! 1) \<and>
   v_penaltyCards (the (stateForPlayer exampleRoom ''s2'')) = None \<and>
   stateForPlayer
     (exampleRoom\<lparr>players := (players exampleRoom)[0 := (players exampleRoom ! 0)\<lparr>hand := [Skull]\<rparr>]\<rparr>)
     ''s2'' = stateForPlayer exampleRoom ''s2''"
proof -
  have idx: "playerIndex exampleRoom ''s1'' = 0"
    by (simp add: playerIndex_def exampleRoom_def newRoom_def newPlayer_def)
  have ps: "players exampleRoom =
      [(newPlayer ''s1'' ''Ann'' 0)\<lparr>cards := [Rose, Skull], hand := [Rose], stack := []\<rparr>,
       (newPlayer ''s2'' ''Bob'' 1)\<lparr>cards := [Rose, Rose, Skull], hand := [Rose, Skull],
                                    stack := [Rose]\<rparr>]"
    by (simp add: exampleRoom_def newRoom_def)
  have ph: "phase exampleRoom = Penalty" "penaltyPlayer exampleRoom = 0"
    by (simp_all add: exampleRoom_def newRoom_def)
  note C = C6_projection_hides_other_hands [of exampleRoom "''s1''"]
  from C idx have some: "stateForPlayer exampleRoom ''s1'' \<noteq> None" by simp
  then obtain v where v: "stateForPlayer exampleRoom ''s1'' = Some v" by auto
  from C v have len: "length (v_players v) = length (players exampleRoom)" by blast
  from C v have seat: "\<And>i. i < length (players exampleRoom) \<Longrightarrow>
      pv_handCount (v_players v ! i) = int (length (hand (players exampleRoom ! i))) \<and>
      pv_hand (v_players v ! i) =
        (if int i = playerIndex exampleRoom ''s1'' then Some (hand (players exampleRoom ! i)) else None)"
    by blast
  from C v have pc: "v_penaltyCards v =
        (if phase exampleRoom = Penalty \<and> penaltyPlayer exampleRoom = playerIndex exampleRoom ''s1''
         then Some (cards (players exampleRoom ! nat (playerIndex exampleRoom ''s1''))) else None)"
    by blast
  from C have "1 < length (players exampleRoom) \<and> int 1 \<noteq> playerIndex exampleRoom ''s1'' \<and>
      length [Skull, Rose] = length (hand (players exampleRoom ! 1)) \<longrightarrow>
      stateForPlayer
        (exampleRoom\<lparr>players := (players exampleRoom)[1 := (players exampleRoom ! 1)\<lparr>hand := [Skull, Rose]\<rparr>]\<rparr>)
        ''s1'' = stateForPlayer exampleRoom ''s1''"
    by blast
  moreover have "1 < length (players exampleRoom) \<and> int 1 \<noteq> playerIndex exampleRoom ''s1'' \<and>
      length [Skull, Rose] = length (hand (players exampleRoom ! 1))"
    by (simp add: idx ps newPlayer_def)
  ultimately have ni: "stateForPlayer
     (exampleRoom\<lparr>players := (players exampleRoom)[1 := (players exampleRoom ! 1)\<lparr>hand := [Skull, Rose]\<rparr>]\<rparr>)
     ''s1'' = stateForPlayer exampleRoom ''s1''"
    by blast
  from seat [of 0] seat [of 1] len pc idx ph ni
  have A: "stateForPlayer exampleRoom ''s1'' \<noteq> None \<and>
   length (v_players (the (stateForPlayer exampleRoom ''s1''))) = 2 \<and>
   pv_hand (v_players (the (stateForPlayer exampleRoom ''s1'')) ! 0) = Some [Rose] \<and>
   pv_hand (v_players (the (stateForPlayer exampleRoom ''s1'')) ! 1) = None \<and>
   pv_handCount (v_players (the (stateForPlayer exampleRoom ''s1'')) ! 1) = 2 \<and>
   v_penaltyCards (the (stateForPlayer exampleRoom ''s1'')) = Some [Rose, Skull] \<and>
   stateForPlayer
     (exampleRoom\<lparr>players := (players exampleRoom)[1 := (players exampleRoom ! 1)\<lparr>hand := [Skull, Rose]\<rparr>]\<rparr>)
     ''s1'' = stateForPlayer exampleRoom ''s1''"
    by (simp add: v ps newPlayer_def)
  note D = C6_projection_hides_other_hands [of exampleRoom "''s2''"]
  have l2: "0 < length (players exampleRoom)" "1 < length (players exampleRoom)"
    by (simp_all add: ps)
  have i0: "ident (players exampleRoom ! 0) \<noteq> ''s2''" by (simp add: ps newPlayer_def)
  have i1: "ident (players exampleRoom ! 1) = ''s2'' \<and>
            (\<forall>j < 1. ident (players exampleRoom ! j) \<noteq> ''s2'')"
    by (simp add: ps newPlayer_def)
  from D have "\<forall>i < length (players exampleRoom).
      playerIndex exampleRoom ''s2'' = int i \<longleftrightarrow>
        ident (players exampleRoom ! i) = ''s2'' \<and> (\<forall>j < i. ident (players exampleRoom ! j) \<noteq> ''s2'')"
    by blast
  with l2(2) i1 have "playerIndex exampleRoom ''s2'' = int 1" by blast
  then have idx2: "playerIndex exampleRoom ''s2'' = 1" by simp
  with D have some2: "stateForPlayer exampleRoom ''s2'' \<noteq> None" by simp
  then obtain u where u: "stateForPlayer exampleRoom ''s2'' = Some u" by auto
  from D u l2(1) i0
  have b0: "pv_hand (v_players u ! 0) = None \<and> \<not> pv_isMe (v_players u ! 0)" by blast
  from D u l2(2) i1
  have b1: "pv_hand (v_players u ! 1) = Some (hand (players exampleRoom ! 1)) \<and>
            pv_isMe (v_players u ! 1)"
    by blast
  from D u have "v_penaltyCards u =
        (if phase exampleRoom = Penalty \<and> penaltyPlayer exampleRoom = playerIndex exampleRoom ''s2''
         then Some (cards (players exampleRoom ! nat (playerIndex exampleRoom ''s2''))) else None)"
    by blast
  with idx2 ph have b2: "v_penaltyCards u = None" by simp
  from D have "0 < length (players exampleRoom) \<and> ident (players exampleRoom ! 0) \<noteq> ''s2'' \<and>
      length [Skull] = length (hand (players exampleRoom ! 0)) \<longrightarrow>
      stateForPlayer
        (exampleRoom\<lparr>players := (players exampleRoom)[0 := (players exampleRoom ! 0)\<lparr>hand := [Skull]\<rparr>]\<rparr>)
        ''s2'' = stateForPlayer exampleRoom ''s2''"
    by blast
  moreover have "length [Skull] = length (hand (players exampleRoom ! 0))" by (simp add: ps)
  ultimately have b3: "stateForPlayer
        (exampleRoom\<lparr>players := (players exampleRoom)[0 := (players exampleRoom ! 0)\<lparr>hand := [Skull]\<rparr>]\<rparr>)
        ''s2'' = stateForPlayer exampleRoom ''s2''"
    using l2(1) i0 by blast
  from b0 b1 b2 b3 some2 idx2
  have B: "stateForPlayer exampleRoom ''s2'' \<noteq> None \<and>
   playerIndex exampleRoom ''s2'' = 1 \<and>
   pv_hand (v_players (the (stateForPlayer exampleRoom ''s2'')) ! 0) = None \<and>
   \<not> pv_isMe (v_players (the (stateForPlayer exampleRoom ''s2'')) ! 0) \<and>
   pv_hand (v_players (the (stateForPlayer exampleRoom ''s2'')) ! 1) = Some [Rose, Skull] \<and>
   pv_isMe (v_players (the (stateForPlayer exampleRoom ''s2'')) ! 1) \<and>
   v_penaltyCards (the (stateForPlayer exampleRoom ''s2'')) = None \<and>
   stateForPlayer
     (exampleRoom\<lparr>players := (players exampleRoom)[0 := (players exampleRoom ! 0)\<lparr>hand := [Skull]\<rparr>]\<rparr>)
     ''s2'' = stateForPlayer exampleRoom ''s2''"
    by (simp add: u ps)
  from A B show ?thesis by simp
qed

section \<open>Token conservation\<close>

text \<open>
  Claim C1, as stated, fails: a flip pops the target's stack and touches neither
  \<open>hand\<close> nor
  \<open>cards\<close>. In the sample game Ann opens with a bid of 2 on a table of 2 and flips her own
  rose: the room is still in phase \<open>flipping\<close>, Ann is not eliminated, and she holds 3 tokens
  in hand, 0 on her stack and 4 in \<open>cards\<close>.
\<close>

theorem C1_counterexample:
  "game_reachable demoFlipped \<and> reachable demoFlipped \<and> phase demoFlipped = Flipping \<and>
   \<not> eliminated (players demoFlipped ! 0) \<and>
   length (hand (players demoFlipped ! 0)) + length (stack (players demoFlipped ! 0))
     \<noteq> length (cards (players demoFlipped ! 0))"
proof -
  have 1: "phase demoFlipped = Flipping" by code_simp
  have 2: "\<not> eliminated (players demoFlipped ! 0)" by code_simp
  have 3: "length (hand (players demoFlipped ! 0)) + length (stack (players demoFlipped ! 0))
     \<noteq> length (cards (players demoFlipped ! 0))" by code_simp
  from game_reachable_demoFlipped game_reachable_reachable [OF game_reachable_demoFlipped] 1 2 3
  show ?thesis by (intro conjI)
qed

text \<open>
  Claim C1, amended. In a room in which \<open>playAgain\<close> is never sent while the
  resolution of a flip is pending, a non-eliminated
  player's tokens are conserved as follows. In the phases \<open>placing\<close> and \<open>bidding\<close> the tokens
  in \<open>hand\<close> plus those in \<open>stack\<close> are as many as those in \<open>cards\<close>. In the phases
  \<open>flipping\<close>, \<open>flip_result\<close> and \<open>penalty\<close>, as long as the start of the next round has not
  been scheduled (which happens when the penalty token is taken out of \<open>cards\<close>), \<open>hand\<close> plus
  \<open>stack\<close> plus the player's tokens in the reveal list are as many as \<open>cards\<close>.
\<close>

theorem C1_tokens_conserved:
  assumes "game_reachable w" and "i < length (players w)" and "\<not> eliminated (players w ! i)"
  shows "(phase w \<in> {Placing, Bidding} \<longrightarrow>
            length (hand (players w ! i)) + length (stack (players w ! i))
              = length (cards (players w ! i))) \<and>
         (phase w \<in> {Flipping, FlipResult, Penalty} \<and>
          StartRoundCb \<notin> set (map callback (timers w)) \<longrightarrow>
            length (hand (players w ! i)) + length (stack (players w ! i)) + revealedOf w i
              = length (cards (players w ! i)))"
proof (intro conjI impI)
  from assms(1) have c: "cinv (coreOf w)" by (rule game_reachable_cinv)
  {
    assume ph: "phase w \<in> {Placing, Bidding}"
    then have "phase w \<in> {Placing, Bidding, Flipping, FlipResult, Penalty}" by auto
    from tokens_conserved [OF c this no_reveals_before_flipping(2) [OF c ph] assms(2,3)]
      no_reveals_before_flipping(1) [OF c ph]
    show "length (hand (players w ! i)) + length (stack (players w ! i))
              = length (cards (players w ! i))"
      by (simp add: revealedOf_def)
  }
  {
    assume a: "phase w \<in> {Flipping, FlipResult, Penalty} \<and>
          StartRoundCb \<notin> set (map callback (timers w))"
    then have "phase w \<in> {Placing, Bidding, Flipping, FlipResult, Penalty}" by auto
    from tokens_conserved [OF c this _ assms(2,3)] a
    show "length (hand (players w ! i)) + length (stack (players w ! i)) + revealedOf w i
              = length (cards (players w ! i))"
      by blast
  }
qed

theorem C1_tokens_witness:
  "game_reachable demoPlacing \<and> phase demoPlacing = Placing \<and>
   \<not> eliminated (players demoPlacing ! 0) \<and>
   length (hand (players demoPlacing ! 0)) + length (stack (players demoPlacing ! 0))
     = length (cards (players demoPlacing ! 0)) \<and>
   game_reachable demoFlipped \<and> phase demoFlipped = Flipping \<and>
   StartRoundCb \<notin> set (map callback (timers demoFlipped)) \<and>
   \<not> eliminated (players demoFlipped ! 0) \<and> revealedOf demoFlipped 0 = 1 \<and>
   length (hand (players demoFlipped ! 0)) + length (stack (players demoFlipped ! 0)) + 1
     = length (cards (players demoFlipped ! 0))"
proof -
  have p1: "phase demoPlacing = Placing" by code_simp
  have p2: "0 < length (players demoPlacing)" by code_simp
  have p3: "\<not> eliminated (players demoPlacing ! 0)" by code_simp
  have f1: "phase demoFlipped = Flipping" by code_simp
  have f2: "0 < length (players demoFlipped)" by code_simp
  have f3: "\<not> eliminated (players demoFlipped ! 0)" by code_simp
  have f4: "StartRoundCb \<notin> set (map callback (timers demoFlipped))" by code_simp
  have f5: "revealedOf demoFlipped 0 = 1" by code_simp
  from C1_tokens_conserved [OF game_reachable_demoPlacing p2 p3] p1
  have a: "length (hand (players demoPlacing ! 0)) + length (stack (players demoPlacing ! 0))
     = length (cards (players demoPlacing ! 0))" by simp
  from C1_tokens_conserved [OF game_reachable_demoFlipped f2 f3] f1 f4 f5
  have b: "length (hand (players demoFlipped ! 0)) + length (stack (players demoFlipped ! 0)) + 1
     = length (cards (players demoFlipped ! 0))" by simp
  from game_reachable_demoPlacing p1 p3 a game_reachable_demoFlipped f1 f4 f3 f5 b
  show ?thesis by (intro conjI)
qed

section \<open>The cached table count\<close>



section \<open>Raising the bid\<close>



section \<open>Rejected actions\<close>



section \<open>The end of the bidding\<close>



section \<open>The penalty for a skull\<close>



end
